theory Spec2Isabelle
  imports Main
begin

section \<open>Text as Python sees it\<close>

text \<open>
  The program is \<^verbatim>\<open>app.py\<close>, a Flask service that scores a resume against a job
  description. A Python \<^verbatim>\<open>str\<close> is a sequence of code points. This development
  covers the code points U+0000 to U+00FF: a \<^typ>\<open>char\<close> is read as the code point of
  the same number, and a \<^typ>\<open>string\<close> is the list of them. The tables below are those
  of CPython for that range.
\<close>

definition ordc :: "char \<Rightarrow> nat" where
  "ordc c = of_char c"

definition between :: "char \<Rightarrow> char \<Rightarrow> char \<Rightarrow> bool" where
  "between lo hi c \<longleftrightarrow> ordc lo \<le> ordc c \<and> ordc c \<le> ordc hi"

text \<open>\<^verbatim>\<open>str.lower()\<close>: A to Z, and U+00C0 to U+00DE except the multiplication sign,
  move up by 32; every other code point of the range stays.\<close>

definition lower_char :: "char \<Rightarrow> char" where
  "lower_char c =
     (if between CHR ''A'' CHR ''Z'' c \<or> (between (CHR 0xC0) (CHR 0xDE) c \<and> c \<noteq> CHR 0xD7)
      then char_of (ordc c + 32) else c)"

definition str_lower :: "string \<Rightarrow> string" where
  "str_lower text = map lower_char text"

text \<open>White space, for \<^verbatim>\<open>str.split()\<close> and for \<^verbatim>\<open>\s\<close> alike: TAB to CR, FS to US,
  the space, NEL and the no-break space.\<close>

definition isspace :: "char \<Rightarrow> bool" where
  "isspace c \<longleftrightarrow> between (CHR 0x09) (CHR 0x0D) c \<or> between (CHR 0x1C) (CHR 0x20) c
     \<or> c = CHR 0x85 \<or> c = CHR 0xA0"

definition is_digit :: "char \<Rightarrow> bool" where
  "is_digit c \<longleftrightarrow> between CHR ''0'' CHR ''9'' c"

definition is_lower_az :: "char \<Rightarrow> bool" where
  "is_lower_az c \<longleftrightarrow> between CHR ''a'' CHR ''z'' c"

text \<open>\<^verbatim>\<open>str.isalnum()\<close>: letters, decimal digits, and the other digits and numerics of
  the range (feminine and masculine ordinal, micro sign, superscripts, fractions).\<close>

definition isalnum :: "char \<Rightarrow> bool" where
  "isalnum c \<longleftrightarrow> is_digit c \<or> between CHR ''A'' CHR ''Z'' c \<or> is_lower_az c
     \<or> c = CHR 0xAA \<or> c = CHR 0xB2 \<or> c = CHR 0xB3 \<or> c = CHR 0xB5 \<or> c = CHR 0xB9
     \<or> c = CHR 0xBA \<or> between (CHR 0xBC) (CHR 0xBE) c
     \<or> between (CHR 0xC0) (CHR 0xD6) c \<or> between (CHR 0xD8) (CHR 0xF6) c
     \<or> between (CHR 0xF8) (CHR 0xFF) c"

section \<open>The tokenizer: \<^verbatim>\<open>clean_text\<close>\<close>

text \<open>\<^verbatim>\<open>re.sub(r'[^a-z0-9\s]', ' ', text)\<close>: every character outside the class becomes a
  space.\<close>

definition sub_special :: "string \<Rightarrow> string" where
  "sub_special text =
     map (\<lambda>c. if is_lower_az c \<or> is_digit c \<or> isspace c then c else CHR '' '') text"

text \<open>\<^verbatim>\<open>str.split()\<close> with no argument: the maximal runs of characters that are not white
  space, in order. The first argument is the word read so far.\<close>

fun split_from :: "string \<Rightarrow> string \<Rightarrow> string list" where
  "split_from w [] = (if w = [] then [] else [w])"
| "split_from w (c # cs) =
     (if isspace c then (if w = [] then split_from [] cs else w # split_from [] cs)
      else split_from (w @ [c]) cs)"

definition str_split :: "string \<Rightarrow> string list" where
  "str_split text = split_from [] text"

definition clean_text :: "string \<Rightarrow> string list" where
  "clean_text text = filter (\<lambda>w. length w > 2) (str_split (sub_special (str_lower text)))"


section \<open>The lexicon\<close>

text \<open>The three sets of \<^verbatim>\<open>app.py\<close>, in the order of their literals. A set literal has no
  order and no duplicates; the lists are only ever used through membership.\<close>

definition COMMON_STOP_WORDS :: "string list" where
  "COMMON_STOP_WORDS =
     [''and'', ''the'', ''for'', ''with'', ''you'', ''that'', ''are'', ''this'', ''from'', ''will'',
      ''have'', ''your'', ''our'', ''can'', ''all'', ''but'', ''not'', ''of'', ''in'', ''to'', ''is'',
      ''a'', ''an'', ''or'', ''as'', ''be'', ''by'', ''on'', ''at'', ''it'']"

definition TECH_SKILLS :: "string list" where
  "TECH_SKILLS =
     [''javascript'', ''python'', ''java'', ''react'', ''angular'', ''vue'', ''html'', ''css'',
      ''typescript'', ''sql'', ''aws'', ''docker'', ''kubernetes'', ''git'', ''jira'', ''agile'',
      ''scrum'', ''communication'', ''leadership'', ''redux'', ''node'', ''express'',
      ''mongodb'', ''ci/cd'', ''frontend'', ''backend'', ''fullstack'', ''api'', ''rest'',
      ''graphql'', ''machine learning'', ''data analysis'', ''go'', ''rust'', ''c++'', ''c#'',
      ''azure'', ''gcp'', ''terraform'', ''jenkins'', ''linux'', ''bash'', ''design patterns'']"

definition SOFT_SKILLS :: "string list" where
  "SOFT_SKILLS =
     [''communication'', ''leadership'', ''teamwork'', ''agile'', ''scrum'',
      ''collaboration'', ''problem-solving'', ''adaptability'', ''time management'',
      ''critical thinking'', ''creativity'']"

section \<open>Regular expressions\<close>

text \<open>
  The formatting checks call \<^verbatim>\<open>re.search\<close> and keep only whether a match exists. A
  backtracking matcher finds a match exactly when one exists, so the model computes the
  set of places a match can end. The patterns of \<^verbatim>\<open>app.py\<close> repeat single characters
  only, and \<open>Rep\<close> is that: between \<open>lo\<close> and \<open>hi\<close> characters of a class.
\<close>

datatype atom =
    Chr char      \<comment> \<open>the character itself\<close>
  | Word          \<comment> \<open>\<^verbatim>\<open>\w\<close>\<close>
  | Digit         \<comment> \<open>\<^verbatim>\<open>\d\<close>\<close>
  | Space         \<comment> \<open>\<^verbatim>\<open>\s\<close>\<close>

datatype regex =
    One "atom list"                   \<comment> \<open>one character: a literal, an escape, or a class \<^verbatim>\<open>[...]\<close>\<close>
  | Bound                             \<comment> \<open>\<^verbatim>\<open>\b\<close>\<close>
  | Then regex regex                  \<comment> \<open>one pattern after the other\<close>
  | Or regex regex                    \<comment> \<open>\<^verbatim>\<open>|\<close>\<close>
  | Rep nat "nat option" "atom list"  \<comment> \<open>\<^verbatim>\<open>?\<close>, \<^verbatim>\<open>+\<close>, \<^verbatim>\<open>{m,n}\<close> on one character\<close>

text \<open>\<^verbatim>\<open>\w\<close> on a \<^verbatim>\<open>str\<close> pattern: alphanumeric, or the underscore.\<close>

definition is_word :: "char \<Rightarrow> bool" where
  "is_word c \<longleftrightarrow> isalnum c \<or> c = CHR ''_''"

text \<open>The first argument is the flag \<^verbatim>\<open>re.IGNORECASE\<close>. In this range of code points
  a letter of a pattern then matches its two cases.\<close>

fun atom_matches :: "bool \<Rightarrow> atom \<Rightarrow> char \<Rightarrow> bool" where
  "atom_matches ic (Chr x) c = (if ic then lower_char c = lower_char x else c = x)"
| "atom_matches ic Word c = is_word c"
| "atom_matches ic Digit c = is_digit c"
| "atom_matches ic Space c = isspace c"

definition class_matches :: "bool \<Rightarrow> atom list \<Rightarrow> char \<Rightarrow> bool" where
  "class_matches ic as c = list_ex (\<lambda>a. atom_matches ic a c) as"

text \<open>A place in the text: whether the character before it is a word character (false
  at the start), and the text from there on.\<close>

type_synonym place = "bool \<times> string"

fun at_boundary :: "place \<Rightarrow> bool" where
  "at_boundary (b, []) = b"
| "at_boundary (b, c # cs) = (b \<noteq> is_word c)"

text \<open>The places reached by reading 0, 1, 2, ... characters of a class, in that order.\<close>

fun run :: "bool \<Rightarrow> atom list \<Rightarrow> place \<Rightarrow> place list" where
  "run ic as (b, []) = [(b, [])]"
| "run ic as (b, c # cs) =
     (b, c # cs) # (if class_matches ic as c then run ic as (is_word c, cs) else [])"

fun ends :: "bool \<Rightarrow> regex \<Rightarrow> place \<Rightarrow> place list" where
  "ends ic (One as) (b, []) = []"
| "ends ic (One as) (b, c # cs) = (if class_matches ic as c then [(is_word c, cs)] else [])"
| "ends ic Bound p = (if at_boundary p then [p] else [])"
| "ends ic (Then r1 r2) p = concat (map (ends ic r2) (ends ic r1 p))"
| "ends ic (Or r1 r2) p = ends ic r1 p @ ends ic r2 p"
| "ends ic (Rep lo hi as) p =
     drop lo (case hi of None \<Rightarrow> run ic as p | Some h \<Rightarrow> take (Suc h) (run ic as p))"

fun search_from :: "bool \<Rightarrow> regex \<Rightarrow> place \<Rightarrow> bool" where
  "search_from ic r (b, []) = (ends ic r (b, []) \<noteq> [])"
| "search_from ic r (b, c # cs) =
     (ends ic r (b, c # cs) \<noteq> [] \<or> search_from ic r (is_word c, cs))"

definition re_search :: "bool \<Rightarrow> regex \<Rightarrow> string \<Rightarrow> bool" where
  "re_search ic r text = search_from ic r (False, text)"

text \<open>Shorthands for writing the patterns.\<close>

fun lits :: "string \<Rightarrow> regex" where
  "lits [] = Rep 0 (Some 0) []"
| "lits [c] = One [Chr c]"
| "lits (c # cs) = Then (One [Chr c]) (lits cs)"

fun seq :: "regex list \<Rightarrow> regex" where
  "seq [] = Rep 0 (Some 0) []"
| "seq [r] = r"
| "seq (r # rs) = Then r (seq rs)"

fun alt :: "regex list \<Rightarrow> regex" where
  "alt [] = One []"
| "alt [r] = r"
| "alt (r # rs) = Or r (alt rs)"

text \<open>\<^verbatim>\<open>\b[\w\.-]+@[\w\.-]+\.\w{2,4}\b\<close>\<close>

definition email_re :: regex where
  "email_re = seq [Bound, Rep 1 None [Word, Chr CHR ''.'', Chr CHR ''-''], One [Chr CHR ''@''],
     Rep 1 None [Word, Chr CHR ''.'', Chr CHR ''-''], One [Chr CHR ''.''],
     Rep 2 (Some 4) [Word], Bound]"

text \<open>\<^verbatim>\<open>\(?\d{3}\)?[-.\s]?\d{3}[-.\s]?\d{4}\<close>\<close>

definition phone_re :: regex where
  "phone_re = seq [Rep 0 (Some 1) [Chr CHR ''(''], Rep 3 (Some 3) [Digit],
     Rep 0 (Some 1) [Chr CHR '')''], Rep 0 (Some 1) [Chr CHR ''-'', Chr CHR ''.'', Space],
     Rep 3 (Some 3) [Digit], Rep 0 (Some 1) [Chr CHR ''-'', Chr CHR ''.'', Space],
     Rep 4 (Some 4) [Digit]]"

text \<open>\<^verbatim>\<open>\b(led|managed|developed|created|built|designed|improved|optimized|engineered|architected)\b\<close>\<close>

definition verbs_re :: regex where
  "verbs_re = seq [Bound,
     alt (map lits [''led'', ''managed'', ''developed'', ''created'', ''built'', ''designed'',
       ''improved'', ''optimized'', ''engineered'', ''architected'']), Bound]"

text \<open>\<^verbatim>\<open>\d+%|\$\d+\<close>\<close>

definition percent_or_dollar_re :: regex where
  "percent_or_dollar_re =
     Or (Then (Rep 1 None [Digit]) (One [Chr CHR ''%'']))
        (Then (One [Chr CHR ''$'']) (Rep 1 None [Digit]))"

text \<open>\<^verbatim>\<open>\b\d+\s+(users|clients|percent|increase|reduction)\<close>\<close>

definition counted_re :: regex where
  "counted_re = seq [Bound, Rep 1 None [Digit], Rep 1 None [Space],
     alt (map lits [''users'', ''clients'', ''percent'', ''increase'', ''reduction''])]"

section \<open>The formatting checks: \<^verbatim>\<open>check_formatting_rules\<close>\<close>

record format_check =
  label :: string
  pass :: bool
  msgFail :: string

definition has_email :: "string \<Rightarrow> bool" where
  "has_email text = re_search False email_re text"

definition has_phone :: "string \<Rightarrow> bool" where
  "has_phone text = re_search False phone_re text"

definition has_verbs :: "string \<Rightarrow> bool" where
  "has_verbs text = re_search True verbs_re text"

definition has_metrics :: "string \<Rightarrow> bool" where
  "has_metrics text \<longleftrightarrow> re_search False percent_or_dollar_re text \<or> re_search True counted_re text"

definition check_formatting_rules :: "string \<Rightarrow> format_check list" where
  "check_formatting_rules text =
     [\<lparr>label = ''Contact Email'', pass = has_email text, msgFail = ''No email detected''\<rparr>,
      \<lparr>label = ''Phone Number'', pass = has_phone text, msgFail = ''No phone number''\<rparr>,
      \<lparr>label = ''Action Verbs'', pass = has_verbs text,
         msgFail = ''Add verbs like 'Managed'' @ [CHR 0x27]\<rparr>,
      \<lparr>label = ''Metrics/Numbers'', pass = has_metrics text,
         msgFail = ''Include measurable achievements (e.g., '20%')''\<rparr>,
      \<lparr>label = ''Consistent Formatting'', pass = True,
         msgFail = ''Ensure uniform font and style''\<rparr>,
      \<lparr>label = ''No Typos'', pass = True, msgFail = ''Proofread for spelling errors''\<rparr>]"

section \<open>The tips: \<^verbatim>\<open>generate_optimization_tips\<close>\<close>

text \<open>\<^verbatim>\<open>sep.join(xs)\<close>\<close>

fun str_join :: "string \<Rightarrow> string list \<Rightarrow> string" where
  "str_join sep [] = []"
| "str_join sep [x] = x"
| "str_join sep (x # xs) = x @ sep @ str_join sep xs"

definition tip_low :: string where
  "tip_low = ''Your resume needs significant alignment with the job description.''"

definition tip_close :: string where
  "tip_close = ''You're close! focus on adding specific technical keywords.''"

definition tip_great :: string where
  "tip_great = ''Great match! Focus on readability and formatting now.''"

definition tip_verbs :: string where
  "tip_verbs = ''Ensure you use 'Action Verbs' at the start of every bullet point.''"

definition tip_numbers :: string where
  "tip_numbers = ''Quantify your experience with numbers (e.g., 'Reduced latency by 20%').''"

definition tip_missing :: "string list \<Rightarrow> string" where
  "tip_missing missing_keywords =
     ''Try to weave in these top missing keywords: '' @ str_join '', '' (take 3 missing_keywords) @ ''.''"

definition generate_optimization_tips :: "int \<Rightarrow> string list \<Rightarrow> string list" where
  "generate_optimization_tips score missing_keywords =
     [if score < 50 then tip_low else if score < 80 then tip_close else tip_great]
     @ (if missing_keywords \<noteq> [] then [tip_missing missing_keywords] else [])
     @ [tip_verbs, tip_numbers]"

section \<open>Counting words: \<^verbatim>\<open>collections.Counter\<close>\<close>

text \<open>A \<^verbatim>\<open>Counter\<close> is a dictionary from words to counts that keeps its keys in the order
  they were first seen: an association list in that order.\<close>

type_synonym counter = "(string \<times> nat) list"

fun counter_add :: "string \<Rightarrow> counter \<Rightarrow> counter" where
  "counter_add w [] = [(w, 1)]"
| "counter_add w ((k, n) # kvs) =
     (if k = w then (k, Suc n) # kvs else (k, n) # counter_add w kvs)"

definition Counter :: "string list \<Rightarrow> counter" where
  "Counter ws = foldl (\<lambda>c w. counter_add w c) [] ws"

text \<open>\<^verbatim>\<open>most_common(n)\<close> is \<^verbatim>\<open>heapq.nlargest(n, items, key=count)\<close>, which is
  \<^verbatim>\<open>sorted(items, key=count, reverse=True)[:n]\<close>: a stable sort by falling count, so
  that words of equal count keep the order of the dictionary.\<close>

definition most_common :: "nat \<Rightarrow> counter \<Rightarrow> counter" where
  "most_common n c = take n (sort_key (\<lambda>(w, k). - int k) c)"

section \<open>Floating point: the score's arithmetic\<close>

text \<open>
  \<^verbatim>\<open>int((len(found) / total_keywords) * 100)\<close> divides two integers into a binary64
  float, multiplies the float by 100 and truncates. Each operation returns the binary64
  value nearest to the exact result, ties to the even significand. A non-negative value
  is kept as a pair \<open>(m, e)\<close> standing for \<open>m * 2 ^ e\<close>. The operands here are list
  lengths and their quotients, far from overflow and from the subnormal range, which
  the model leaves out.
\<close>

type_synonym float64 = "nat \<times> int"

fun bit_length :: "nat \<Rightarrow> nat" where
  "bit_length n = (if n = 0 then 0 else Suc (bit_length (n div 2)))"

declare bit_length.simps [simp del]

text \<open>The integer nearest to \<open>n / d\<close>, ties to even.\<close>

definition round_half_even :: "nat \<Rightarrow> nat \<Rightarrow> nat" where
  "round_half_even n d =
     (let q = n div d; r = n mod d
      in if 2 * r < d then q else if d < 2 * r then Suc q else if even q then q else Suc q)"

text \<open>The binary64 value nearest to \<open>n / d\<close>: the quotient is scaled by a power of two
  into the range from \<open>2 ^ 52\<close> up to \<open>2 ^ 53\<close>, where the significands are the
  integers, and rounded there.\<close>

definition round53 :: "nat \<Rightarrow> nat \<Rightarrow> float64" where
  "round53 n d =
     (if n = 0 then (0, 0)
      else let s = 53 + int (bit_length d) - int (bit_length n);
               n' = (if 0 \<le> s then n * 2 ^ nat s else n);
               d' = (if 0 \<le> s then d else d * 2 ^ nat (- s))
           in if n' < 2 ^ 53 * d' then (round_half_even n' d', - s)
              else (round_half_even n' (2 * d'), 1 - s))"

definition float_div :: "nat \<Rightarrow> nat \<Rightarrow> float64" where
  "float_div a b = round53 a b"

definition float_mul :: "float64 \<Rightarrow> nat \<Rightarrow> float64" where
  "float_mul x k = (case x of (m, e) \<Rightarrow> (case round53 (m * k) 1 of (m', e') \<Rightarrow> (m', e' + e)))"

text \<open>\<^verbatim>\<open>int(x)\<close> truncates toward zero.\<close>

definition float_to_int :: "float64 \<Rightarrow> int" where
  "float_to_int x =
     (case x of (m, e) \<Rightarrow> if 0 \<le> e then int (m * 2 ^ nat e) else int (m div 2 ^ nat (- e)))"

section \<open>The analysis: \<^verbatim>\<open>analyze\<close>\<close>

text \<open>
  \<^verbatim>\<open>list(target_keywords)\<close> lists a set of strings, and Python fixes no order for that:
  it depends on the hashes, which change from one process to the next. The order is a
  parameter \<open>iter\<close> of the model. It maps the sequence of insertions to the list that
  the iteration gives, and \<open>set_order\<close> is all that is known of it.
\<close>

definition set_order :: "(string list \<Rightarrow> string list) \<Rightarrow> bool" where
  "set_order iter \<longleftrightarrow> (\<forall>xs. set (iter xs) = set xs \<and> distinct (iter xs))"

text \<open>The words counted: \<^verbatim>\<open>Counter([w for w in jd_words if w not in COMMON_STOP_WORDS])\<close>\<close>

definition jd_counter :: "string list \<Rightarrow> counter" where
  "jd_counter jd_words = Counter (filter (\<lambda>w. w \<notin> set COMMON_STOP_WORDS) jd_words)"

text \<open>The words that the first loop adds to the set, in the order it adds them.\<close>

definition known_skills :: "string list \<Rightarrow> string list" where
  "known_skills jd_words = filter (\<lambda>w. w \<in> set TECH_SKILLS) jd_words"

definition target_keywords :: "(string list \<Rightarrow> string list) \<Rightarrow> string list \<Rightarrow> string list" where
  "target_keywords iter jd_words =
     (if card (set (known_skills jd_words)) < 5
      then iter (known_skills jd_words @ map fst (most_common 10 (jd_counter jd_words)))
      else iter (known_skills jd_words))"

text \<open>\<^verbatim>\<open>k in text\<close> on strings: \<open>k\<close> occurs in \<open>text\<close> as a run of consecutive
  characters.\<close>

fun starts_with :: "string \<Rightarrow> string \<Rightarrow> bool" where
  "starts_with [] text = True"
| "starts_with (x # xs) [] = False"
| "starts_with (x # xs) (c # cs) = (x = c \<and> starts_with xs cs)"

fun str_contains :: "string \<Rightarrow> string \<Rightarrow> bool" where
  "str_contains k [] = (k = [])"
| "str_contains k (c # cs) = (starts_with k (c # cs) \<or> str_contains k cs)"

text \<open>The matching loop, returning \<open>(found, missing)\<close>.\<close>

fun match_keywords :: "string set \<Rightarrow> string \<Rightarrow> string list \<Rightarrow> string list \<times> string list" where
  "match_keywords resume_set raw_resume_lower [] = ([], [])"
| "match_keywords resume_set raw_resume_lower (k # ks) =
     (case match_keywords resume_set raw_resume_lower ks of (found, missing) \<Rightarrow>
        if k \<in> resume_set \<or> str_contains k raw_resume_lower
        then (k # found, missing) else (found, k # missing))"

definition score_of :: "nat \<Rightarrow> nat \<Rightarrow> int" where
  "score_of n_found total_keywords =
     (if total_keywords = 0 then 0
      else float_to_int (float_mul (float_div n_found total_keywords) 100))"

text \<open>The route takes \<^verbatim>\<open>resume_text\<close> and \<^verbatim>\<open>jd_text\<close> from the JSON body of the
  request and answers with status 400 when one of them is empty: the error value of the
  model. Reading the request and serialising the response are left out.\<close>

datatype error = Both_fields_required

record response =
  score :: int
  found_keywords :: "string list"
  missing_keywords :: "string list"
  hard_skills_count :: nat
  soft_skills_count :: nat
  format_checks :: "format_check list"
  tips :: "string list"

definition analyze :: "(string list \<Rightarrow> string list) \<Rightarrow> string \<Rightarrow> string \<Rightarrow> error + response" where
  "analyze iter resume_text jd_text =
     (if resume_text = [] \<or> jd_text = [] then Inl Both_fields_required
      else
        let resume_words = clean_text resume_text;
            jd_words = clean_text jd_text;
            targets = target_keywords iter jd_words;
            (found, missing) = match_keywords (set resume_words) (str_lower resume_text) targets;
            sc = score_of (length found) (length targets)
        in Inr \<lparr>score = sc,
                found_keywords = found,
                missing_keywords = missing,
                hard_skills_count = length (filter (\<lambda>k. k \<notin> set SOFT_SKILLS) found),
                soft_skills_count = length (filter (\<lambda>k. k \<in> set SOFT_SKILLS) found),
                format_checks = check_formatting_rules resume_text,
                tips = generate_optimization_tips sc missing\<rparr>)"

section \<open>Notions of the specification\<close>

text \<open>\<open>k\<close> occurs in \<open>text\<close> as a literal substring.\<close>

definition occurs_in :: "string \<Rightarrow> string \<Rightarrow> bool" where
  "occurs_in k text \<longleftrightarrow> (\<exists>pre post. text = pre @ k @ post)"

section \<open>A worked example\<close>

text \<open>The job description and the resume of the specification's example, and the
  response to them when the set happens to be listed in the order \<open>remdups\<close> gives.\<close>

definition example_jd :: string where
  "example_jd =
     ''We need a Python developer with React experience and strong communication skills, 5+ years.''"

definition example_resume :: string where
  "example_resume = ''Built React apps using Python. Led team communication.''"

definition example_targets :: "string list" where
  "example_targets = [''need'', ''python'', ''developer'', ''react'', ''experience'', ''strong'',
     ''communication'', ''skills'', ''years'']"

definition example_response :: response where
  "example_response =
     \<lparr>score = 33,
      found_keywords = [''python'', ''react'', ''communication''],
      missing_keywords = [''need'', ''developer'', ''experience'', ''strong'', ''skills'', ''years''],
      hard_skills_count = 2,
      soft_skills_count = 1,
      format_checks =
        [\<lparr>label = ''Contact Email'', pass = False, msgFail = ''No email detected''\<rparr>,
         \<lparr>label = ''Phone Number'', pass = False, msgFail = ''No phone number''\<rparr>,
         \<lparr>label = ''Action Verbs'', pass = True, msgFail = ''Add verbs like 'Managed'' @ [CHR 0x27]\<rparr>,
         \<lparr>label = ''Metrics/Numbers'', pass = False,
            msgFail = ''Include measurable achievements (e.g., '20%')''\<rparr>,
         \<lparr>label = ''Consistent Formatting'', pass = True,
            msgFail = ''Ensure uniform font and style''\<rparr>,
         \<lparr>label = ''No Typos'', pass = True, msgFail = ''Proofread for spelling errors''\<rparr>],
      tips =
        [''Your resume needs significant alignment with the job description.'',
         ''Try to weave in these top missing keywords: need, developer, experience.'',
         ''Ensure you use 'Action Verbs' at the start of every bullet point.'',
         ''Quantify your experience with numbers (e.g., 'Reduced latency by 20%').'']\<rparr>"

section \<open>Checking the score on every reachable pair\<close>

text \<open>\<open>score_exact t f\<close>: with \<open>f\<close> keywords found out of \<open>t\<close>, the floating-point score is
  the integer quotient. \<open>all_upto P n\<close> checks \<open>P\<close> on 0 to \<open>n\<close>, one number at a time.\<close>

fun all_upto :: "(nat \<Rightarrow> bool) \<Rightarrow> nat \<Rightarrow> bool" where
  "all_upto P 0 = P 0"
| "all_upto P (Suc n) = (P (Suc n) \<and> all_upto P n)"

definition score_exact :: "nat \<Rightarrow> nat \<Rightarrow> bool" where
  "score_exact t f \<longleftrightarrow> score_of f t = int (100 * f div t)"

definition rows_exact :: "nat \<Rightarrow> bool" where
  "rows_exact t \<longleftrightarrow> all_upto (score_exact t) t"

section \<open>More examples\<close>

text \<open>A job description that names five known skills, and a resume that has them all.\<close>

definition full_jd :: string where
  "full_jd = ''Python, React, Docker, AWS and SQL''"

definition full_resume :: string where
  "full_resume = ''I know sql, aws, docker, react and python.''"

text \<open>The entries of \<open>TECH_SKILLS\<close> that are not made of three or more letters a to z and
  digits.\<close>

definition untokenizable_skills :: "string list" where
  "untokenizable_skills =
     [''machine learning'', ''data analysis'', ''design patterns'', ''ci/cd'', ''c++'', ''c#'', ''go'']"

section \<open>The most frequent words, as the specification puts it\<close>

text \<open>\<open>v\<close> is seen before \<open>w\<close> in \<open>ws\<close>: it occurs ahead of the first occurrence of \<open>w\<close>.
  \<open>v\<close> ranks above \<open>w\<close> when it occurs more often, or as often and is seen before it.
  The \<open>n\<close> most frequent words are those with fewer than \<open>n\<close> words ranking above
  them.\<close>

definition seen_before :: "string list \<Rightarrow> string \<Rightarrow> string \<Rightarrow> bool" where
  "seen_before ws v w \<longleftrightarrow> v \<in> set (takeWhile (\<lambda>x. x \<noteq> w) ws)"

definition ranks_above :: "string list \<Rightarrow> string \<Rightarrow> string \<Rightarrow> bool" where
  "ranks_above ws v w \<longleftrightarrow>
     count_list ws w < count_list ws v \<or> (count_list ws v = count_list ws w \<and> seen_before ws v w)"

definition most_frequent :: "nat \<Rightarrow> string list \<Rightarrow> string set" where
  "most_frequent n ws = {w \<in> set ws. card {v \<in> set ws. ranks_above ws v w} < n}"

text \<open>A token sequence with twelve distinct words that are not stop words, two of them
  twice, and one known skill.\<close>

definition ranked_words :: "string list" where
  "ranked_words = [''python'', ''aaa'', ''bbb'', ''ccc'', ''aaa'', ''ddd'', ''eee'', ''fff'', ''ggg'',
     ''hhh'', ''iii'', ''jjj'', ''kkk'', ''kkk'', ''the'']"

section \<open>The email pattern, in words\<close>

text \<open>\<open>after b m\<close>: is the last character read a word character, when \<open>m\<close> was read from
  a place whose flag was \<open>b\<close>. \<open>within lo hi n\<close>: \<open>n\<close> repetitions are allowed.\<close>

definition after :: "bool \<Rightarrow> string \<Rightarrow> bool" where
  "after b m = (if m = [] then b else is_word (last m))"

definition within :: "nat \<Rightarrow> nat option \<Rightarrow> nat \<Rightarrow> bool" where
  "within lo hi n \<longleftrightarrow> lo \<le> n \<and> (case hi of None \<Rightarrow> True | Some h \<Rightarrow> n \<le> h)"

text \<open>The characters of a local part and of a domain; a word boundary between the text
  before a place and the text ahead of it; and the three parts of an address as the
  pattern takes them, the last of two to four word characters.\<close>

definition email_char :: "char \<Rightarrow> bool" where
  "email_char c \<longleftrightarrow> is_word c \<or> c = CHR ''.'' \<or> c = CHR ''-''"

definition word_boundary :: "string \<Rightarrow> string \<Rightarrow> bool" where
  "word_boundary before ahead \<longleftrightarrow>
     (before \<noteq> [] \<and> is_word (last before)) \<noteq> (ahead \<noteq> [] \<and> is_word (hd ahead))"

definition email_shape :: "string \<Rightarrow> string \<Rightarrow> string \<Rightarrow> bool" where
  "email_shape loc host tld \<longleftrightarrow>
     loc \<noteq> [] \<and> list_all email_char loc \<and> host \<noteq> [] \<and> list_all email_char host
     \<and> 2 \<le> length tld \<and> length tld \<le> 4 \<and> list_all is_word tld"

text \<open>The check as the specification words it: some substring is a local part, an at
  sign, a domain, a dot and two to four letters.\<close>

definition is_letter :: "char \<Rightarrow> bool" where
  "is_letter c \<longleftrightarrow> between CHR ''A'' CHR ''Z'' c \<or> between CHR ''a'' CHR ''z'' c"

definition claimed_email :: "string \<Rightarrow> bool" where
  "claimed_email text \<longleftrightarrow>
     (\<exists>pre loc host tld post. text = pre @ loc @ ''@'' @ host @ ''.'' @ tld @ post
        \<and> loc \<noteq> [] \<and> list_all email_char loc \<and> host \<noteq> [] \<and> list_all email_char host
        \<and> 2 \<le> length tld \<and> length tld \<le> 4 \<and> list_all is_letter tld)"

section \<open>Characters by their code points\<close>

lemma char_eq_ordc: "c = d \<longleftrightarrow> ordc c = ordc d"
  by (simp add: ordc_def)

lemma ordc_char_of: "ordc (char_of n) = n mod 256"
  by (simp add: ordc_def)

lemma ordc_Char:
  "ordc (Char b0 b1 b2 b3 b4 b5 b6 b7) = horner_sum of_bool 2 [b0, b1, b2, b3, b4, b5, b6, b7]"
  by (simp add: ordc_def)

lemmas char_eval = between_def char_eq_ordc ordc_char_of ordc_Char lower_char_def isspace_def
  is_digit_def is_lower_az_def isalnum_def

section \<open>Properties of the tokenizer\<close>

lemma split_from_chars:
  "u \<in> set (split_from w cs) \<Longrightarrow> set u \<subseteq> set w \<union> {c \<in> set cs. \<not> isspace c}"
proof (induction cs arbitrary: w)
  case Nil
  then show ?case by (simp split: if_splits)
next
  case (Cons c cs)
  show ?case
  proof (cases "isspace c")
    case True
    with Cons.prems have "u = w \<or> u \<in> set (split_from [] cs)"
      by (auto split: if_splits)
    then show ?thesis using Cons.IH [of "[]"] by auto
  next
    case False
    with Cons.prems have "u \<in> set (split_from (w @ [c]) cs)" by simp
    from Cons.IH [OF this] show ?thesis using False by auto
  qed
qed

lemma str_split_chars: "u \<in> set (str_split s) \<Longrightarrow> c \<in> set u \<Longrightarrow> c \<in> set s \<and> \<not> isspace c"
  using split_from_chars [of u "[]" s] by (auto simp: str_split_def)

lemma isspace_blank: "isspace CHR '' ''"
  by (simp add: char_eval)

lemma sub_special_chars:
  "c \<in> set (sub_special s) \<Longrightarrow> is_lower_az c \<or> is_digit c \<or> isspace c"
  by (auto simp: sub_special_def isspace_blank)

lemma clean_text_chars:
  assumes "w \<in> set (clean_text t)" and "c \<in> set w"
  shows "is_lower_az c \<or> is_digit c"
proof -
  from assms(1) have "w \<in> set (str_split (sub_special (str_lower t)))"
    by (simp add: clean_text_def)
  from str_split_chars [OF this assms(2)] sub_special_chars show ?thesis by blast
qed

lemma clean_text_length: "w \<in> set (clean_text t) \<Longrightarrow> length w > 2"
  by (simp add: clean_text_def)

lemma split_from_spaces: "\<forall>c\<in>set cs. isspace c \<Longrightarrow> split_from [] cs = []"
  by (induction cs) auto

lemma not_alnum_lower:
  assumes "\<not> isalnum c"
  shows "lower_char c = c" and "\<not> is_lower_az c" and "\<not> is_digit c"
  using assms by (auto simp: char_eval)

lemma clean_text_no_alnum:
  assumes "\<forall>c\<in>set t. \<not> isalnum c"
  shows "clean_text t = []"
proof -
  have "\<forall>c\<in>set (sub_special (str_lower t)). isspace c"
    using assms by (auto simp: sub_special_def str_lower_def not_alnum_lower isspace_blank)
  then have "str_split (sub_special (str_lower t)) = []"
    unfolding str_split_def by (rule split_from_spaces)
  then show ?thesis by (simp add: clean_text_def)
qed

text \<open>
  C5. Every token that \<open>clean_text\<close> returns is longer than two characters and is made
  of the letters a to z and the digits 0 to 9 only. A text with no alphanumeric
  character, the empty text among them, has no token. \<open>clean_text\<close> is a total function:
  no operation in it can raise.
\<close>

theorem clean_text_tokens:
  "(\<forall>w\<in>set (clean_text t). 2 < length w \<and> (\<forall>c\<in>set w. is_lower_az c \<or> is_digit c))
   \<and> ((\<forall>c\<in>set t. \<not> isalnum c) \<longrightarrow> clean_text t = [])
   \<and> clean_text [] = []"
  using clean_text_chars clean_text_length clean_text_no_alnum [of "[]"] clean_text_no_alnum [of t]
  by auto

theorem clean_text_tokens_witness:
  "clean_text ''Python, C++ & Go: SQL-99!'' = [''python'', ''sql'']
   \<and> 2 < length ''python'' \<and> list_all (\<lambda>c. is_lower_az c \<or> is_digit c) ''python''
   \<and> list_all (\<lambda>c. \<not> isalnum c) ''?! -+'' \<and> clean_text ''?! -+'' = []"
proof -
  have tokens: "clean_text ''Python, C++ & Go: SQL-99!'' = [''python'', ''sql'']"
    by code_simp
  have none: "\<forall>c\<in>set ''?! -+''. \<not> isalnum c"
    by code_simp
  from clean_text_tokens [of "''Python, C++ & Go: SQL-99!''"] tokens
  have "2 < length ''python'' \<and> (\<forall>c\<in>set ''python''. is_lower_az c \<or> is_digit c)"
    by simp
  moreover from clean_text_tokens [of "''?! -+''"] none have "clean_text ''?! -+'' = []"
    by blast
  ultimately show ?thesis
    using tokens none by (simp add: list_all_iff)
qed

section \<open>Evaluating the score's arithmetic\<close>

lemma bit_length_0: "bit_length 0 = 0" by (simp add: bit_length.simps)
lemma bit_length_1: "bit_length (Suc 0) = 1" by (simp add: bit_length.simps)
lemma bit_length_one: "bit_length 1 = 1" by (simp add: bit_length.simps)
lemma bit_length_Bit0: "bit_length (numeral (Num.Bit0 k)) = Suc (bit_length (numeral k))"
  by (subst bit_length.simps) simp
lemma bit_length_Bit1: "bit_length (numeral (Num.Bit1 k)) = Suc (bit_length (numeral k))"
  by (subst bit_length.simps) simp

lemmas bit_length_num = bit_length_0 bit_length_1 bit_length_one bit_length_Bit0 bit_length_Bit1

lemmas score_eval = score_of_def float_div_def float_mul_def float_to_int_def round53_def round_half_even_def Let_def bit_length_num

section \<open>The matching loop and the response\<close>

lemma starts_with_iff: "starts_with k text \<longleftrightarrow> (\<exists>post. text = k @ post)"
  by (induction k "text" rule: starts_with.induct) auto

lemma str_contains_iff: "str_contains k text \<longleftrightarrow> occurs_in k text"
proof (induction "text")
  case Nil
  show ?case by (auto simp: occurs_in_def)
next
  case (Cons c cs)
  have "occurs_in k (c # cs) \<longleftrightarrow> (\<exists>post. c # cs = k @ post) \<or> occurs_in k cs"
  proof
    assume "occurs_in k (c # cs)"
    then obtain pre post where split: "c # cs = pre @ k @ post"
      by (auto simp: occurs_in_def)
    show "(\<exists>post. c # cs = k @ post) \<or> occurs_in k cs"
    proof (cases pre)
      case Nil
      with split show ?thesis by auto
    next
      case (Cons p ps)
      with split have "cs = ps @ k @ post" by simp
      then show ?thesis by (auto simp: occurs_in_def)
    qed
  next
    assume "(\<exists>post. c # cs = k @ post) \<or> occurs_in k cs"
    then show "occurs_in k (c # cs)"
    proof
      assume "\<exists>post. c # cs = k @ post"
      then obtain post where "c # cs = [] @ k @ post" by auto
      then show ?thesis unfolding occurs_in_def by blast
    next
      assume "occurs_in k cs"
      then obtain pre post where "cs = pre @ k @ post" by (auto simp: occurs_in_def)
      then have "c # cs = (c # pre) @ k @ post" by simp
      then show ?thesis unfolding occurs_in_def by blast
    qed
  qed
  with Cons show ?case by (simp add: starts_with_iff)
qed

lemma match_keywords_filter:
  "match_keywords rs raw ks =
     (filter (\<lambda>k. k \<in> rs \<or> str_contains k raw) ks,
      filter (\<lambda>k. \<not> (k \<in> rs \<or> str_contains k raw)) ks)"
  by (induction ks) auto

lemma analyze_Inr:
  assumes "analyze iter resume_text jd_text = Inr r"
  shows "resume_text \<noteq> []" and "jd_text \<noteq> []"
    and "found_keywords r = filter (\<lambda>k. k \<in> set (clean_text resume_text) \<or> str_contains k (str_lower resume_text))
           (target_keywords iter (clean_text jd_text))"
    and "missing_keywords r = filter (\<lambda>k. \<not> (k \<in> set (clean_text resume_text) \<or> str_contains k (str_lower resume_text)))
           (target_keywords iter (clean_text jd_text))"
    and "score r = score_of (length (found_keywords r)) (length (target_keywords iter (clean_text jd_text)))"
    and "format_checks r = check_formatting_rules resume_text"
    and "tips r = generate_optimization_tips (score r) (missing_keywords r)"
  using assms
  by (auto simp: analyze_def Let_def match_keywords_filter split: if_splits)

section \<open>The worked example, step by step\<close>

lemma example_jd_words:
  "clean_text example_jd = [''need'', ''python'', ''developer'', ''with'', ''react'', ''experience'',
     ''and'', ''strong'', ''communication'', ''skills'', ''years'']"
  by code_simp

lemma example_resume_words:
  "clean_text example_resume =
     [''built'', ''react'', ''apps'', ''using'', ''python'', ''led'', ''team'', ''communication'']"
  by code_simp

lemma example_target_keywords: "target_keywords remdups (clean_text example_jd) = example_targets"
  unfolding example_jd_words by code_simp

lemma example_match:
  "match_keywords (set (clean_text example_resume)) (str_lower example_resume) example_targets =
     (found_keywords example_response, missing_keywords example_response)"
  unfolding example_resume_words by code_simp

lemma example_score: "score_of 3 9 = 33"
  by (simp add: score_eval)

lemma example_checks: "check_formatting_rules example_resume = format_checks example_response"
  by code_simp

lemma example_tips:
  "generate_optimization_tips 33 (missing_keywords example_response) = tips example_response"
  by code_simp

lemma example_counts:
  "length (filter (\<lambda>k. k \<notin> set SOFT_SKILLS) (found_keywords example_response)) = 2"
  "length (filter (\<lambda>k. k \<in> set SOFT_SKILLS) (found_keywords example_response)) = 1"
  by code_simp+

lemma example_nonempty: "example_resume \<noteq> []" "example_jd \<noteq> []"
  by (simp_all add: example_resume_def example_jd_def)

lemma example_analysis: "analyze remdups example_resume example_jd = Inr example_response"
proof -
  have lens: "length (found_keywords example_response) = 3" "length example_targets = 9"
    by (simp_all add: example_response_def example_targets_def)
  show ?thesis
    unfolding analyze_def Let_def example_target_keywords example_match
    by (simp add: example_nonempty lens example_score example_checks example_tips example_counts)
      (simp add: example_response_def)
qed

lemma set_order_remdups: "set_order remdups"
  by (simp add: set_order_def)


section \<open>Found and missing keywords\<close>

text \<open>
  C2. The found and the missing keywords of a response partition the target keywords:
  together they are the set of targets, and no keyword is in both lists.
\<close>

theorem found_missing_partition:
  assumes "analyze iter resume_text jd_text = Inr r"
  shows "set (found_keywords r) \<union> set (missing_keywords r) = set (target_keywords iter (clean_text jd_text))
       \<and> set (found_keywords r) \<inter> set (missing_keywords r) = {}"
  using analyze_Inr(3,4) [OF assms] by auto

theorem found_missing_partition_witness:
  "analyze remdups example_resume example_jd = Inr example_response
   \<and> set (found_keywords example_response) \<union> set (missing_keywords example_response)
       = set (target_keywords remdups (clean_text example_jd))
   \<and> set (found_keywords example_response) \<inter> set (missing_keywords example_response) = {}"
  using found_missing_partition [OF example_analysis] example_analysis by simp

text \<open>
  C3. A target keyword is found exactly when it is one of the resume's tokens or occurs
  as a literal substring of the lowercased resume text, and it is missing exactly when
  neither holds.
\<close>

theorem keyword_found_iff:
  assumes "analyze iter resume_text jd_text = Inr r"
    and "k \<in> set (target_keywords iter (clean_text jd_text))"
  shows "(k \<in> set (found_keywords r) \<longleftrightarrow>
            k \<in> set (clean_text resume_text) \<or> occurs_in k (str_lower resume_text))
       \<and> (k \<in> set (missing_keywords r) \<longleftrightarrow>
            \<not> (k \<in> set (clean_text resume_text) \<or> occurs_in k (str_lower resume_text)))"
  using analyze_Inr(3,4) [OF assms(1)] assms(2) by (simp add: str_contains_iff)

theorem keyword_found_iff_witness:
  "analyze remdups example_resume example_jd = Inr example_response
   \<and> ''react'' \<in> set (target_keywords remdups (clean_text example_jd))
   \<and> ''react'' \<in> set (found_keywords example_response)
   \<and> (''react'' \<in> set (clean_text example_resume) \<or> occurs_in ''react'' (str_lower example_resume))
   \<and> ''skills'' \<in> set (target_keywords remdups (clean_text example_jd))
   \<and> ''skills'' \<in> set (missing_keywords example_response)
   \<and> ''skills'' \<notin> set (clean_text example_resume)
   \<and> \<not> occurs_in ''skills'' (str_lower example_resume)"
proof -
  have targets: "''react'' \<in> set (target_keywords remdups (clean_text example_jd))"
    "''skills'' \<in> set (target_keywords remdups (clean_text example_jd))"
    by (simp_all add: example_target_keywords example_targets_def)
  have lists: "''react'' \<in> set (found_keywords example_response)"
    "''skills'' \<in> set (missing_keywords example_response)"
    by (simp_all add: example_response_def)
  from keyword_found_iff [OF example_analysis targets(1)] lists(1)
  have "''react'' \<in> set (clean_text example_resume) \<or> occurs_in ''react'' (str_lower example_resume)"
    by blast
  moreover from keyword_found_iff [OF example_analysis targets(2)] lists(2)
  have "''skills'' \<notin> set (clean_text example_resume) \<and> \<not> occurs_in ''skills'' (str_lower example_resume)"
    by blast
  ultimately show ?thesis
    using targets lists example_analysis by blast
qed

section \<open>The six formatting checks\<close>

text \<open>
  C8. \<open>check_formatting_rules\<close> returns six checks: Contact Email, Phone Number, Action
  Verbs, Metrics/Numbers, Consistent Formatting, No Typos, in this order. The first four
  carry the results of the four searches; the fifth and the sixth pass on every text.
\<close>

theorem check_formatting_rules_shape:
  "length (check_formatting_rules text) = 6
   \<and> map label (check_formatting_rules text) =
        [''Contact Email'', ''Phone Number'', ''Action Verbs'', ''Metrics/Numbers'',
         ''Consistent Formatting'', ''No Typos'']
   \<and> map pass (check_formatting_rules text) =
        [has_email text, has_phone text, has_verbs text, has_metrics text, True, True]
   \<and> pass (check_formatting_rules text ! 4) \<and> pass (check_formatting_rules text ! 5)"
  by (simp add: check_formatting_rules_def)

theorem check_formatting_rules_shape_witness:
  "length (check_formatting_rules example_resume) = 6
   \<and> map pass (check_formatting_rules example_resume) = [False, False, True, False, True, True]"
proof -
  have "map pass (check_formatting_rules example_resume) = [False, False, True, False, True, True]"
    by (simp add: example_checks example_response_def)
  with check_formatting_rules_shape [of example_resume] show ?thesis
    by simp
qed

section \<open>The three or four tips\<close>

text \<open>
  C9. \<open>generate_optimization_tips\<close> returns three tips when no keyword is missing and
  four otherwise. The first is chosen by the score: below 50, from 50 to 79, 80 and
  above. When keywords are missing, the second names the first three of them (all of
  them when there are fewer), joined by a comma and a space. The last two are always the
  tip on action verbs and the tip on numbers.
\<close>

theorem generate_optimization_tips_shape:
  "length (generate_optimization_tips sc missing) = (if missing = [] then 3 else 4)
   \<and> hd (generate_optimization_tips sc missing) =
        (if sc < 50 then tip_low else if sc < 80 then tip_close else tip_great)
   \<and> (missing \<noteq> [] \<longrightarrow> generate_optimization_tips sc missing ! 1 =
        ''Try to weave in these top missing keywords: '' @ str_join '', '' (take 3 missing) @ ''.'')
   \<and> drop (length (generate_optimization_tips sc missing) - 2) (generate_optimization_tips sc missing)
        = [tip_verbs, tip_numbers]"
  by (simp add: generate_optimization_tips_def tip_missing_def)

theorem generate_optimization_tips_shape_witness:
  "length (generate_optimization_tips 30 [''docker'', ''aws'']) = 4
   \<and> hd (generate_optimization_tips 30 [''docker'', ''aws'']) = tip_low
   \<and> generate_optimization_tips 30 [''docker'', ''aws''] ! 1
       = ''Try to weave in these top missing keywords: docker, aws.''
   \<and> generate_optimization_tips 30 [''a'', ''b'', ''c'', ''d''] ! 1
       = ''Try to weave in these top missing keywords: a, b, c.''
   \<and> length (generate_optimization_tips 85 []) = 3
   \<and> hd (generate_optimization_tips 85 []) = tip_great
   \<and> hd (generate_optimization_tips 50 []) = tip_close"
  using generate_optimization_tips_shape [of 30 "[''docker'', ''aws'']"]
    generate_optimization_tips_shape [of 30 "[''a'', ''b'', ''c'', ''d'']"]
    generate_optimization_tips_shape [of 85 "[]"]
    generate_optimization_tips_shape [of 50 "[]"]
  by simp

section \<open>Counters and the target list\<close>

lemma counter_add_keys:
  "map fst (counter_add w c) = (if w \<in> fst ` set c then map fst c else map fst c @ [w])"
proof (induction c)
  case Nil
  show ?case by simp
next
  case (Cons p c)
  obtain k n where p: "p = (k, n)" by (cases p)
  show ?case
  proof (cases "k = w")
    case True
    with p show ?thesis by simp
  next
    case False
    with p Cons show ?thesis by (cases "w \<in> fst ` set c") auto
  qed
qed

lemma Counter_snoc: "Counter (ws @ [w]) = counter_add w (Counter ws)"
  by (simp add: Counter_def)

lemma Counter_Nil: "Counter [] = []"
  by (simp add: Counter_def)

lemma Counter_keys_set: "fst ` set (Counter ws) = set ws"
proof (induction ws rule: rev_induct)
  case Nil
  show ?case by (simp add: Counter_Nil)
next
  case (snoc w ws)
  have "fst ` set (Counter (ws @ [w])) = set (map fst (counter_add w (Counter ws)))"
    by (simp add: Counter_snoc)
  also have "\<dots> = insert w (fst ` set (Counter ws))"
    by (auto simp: counter_add_keys)
  finally show ?case using snoc by simp
qed

lemma Counter_keys_distinct: "distinct (map fst (Counter ws))"
proof (induction ws rule: rev_induct)
  case Nil
  show ?case by (simp add: Counter_Nil)
next
  case (snoc w ws)
  then show ?case by (simp add: Counter_snoc counter_add_keys)
qed

lemma most_common_subset: "set (most_common n c) \<subseteq> set c"
  using set_take_subset [of n "sort_key (\<lambda>(w, k). - int k) c"] by (simp add: most_common_def)

lemma most_common_length: "length (most_common n c) \<le> n"
  by (simp add: most_common_def)

lemma most_common_words: "set (map fst (most_common n (jd_counter ws))) \<subseteq> set ws"
proof -
  have "fst ` set (most_common n (jd_counter ws)) \<subseteq> fst ` set (jd_counter ws)"
    using most_common_subset by (rule image_mono)
  also have "\<dots> \<subseteq> set ws"
    by (auto simp: jd_counter_def Counter_keys_set)
  finally show ?thesis by simp
qed



lemma set_orderD:
  assumes "set_order iter"
  shows "set (iter xs) = set xs" and "distinct (iter xs)"
  using assms by (simp_all add: set_order_def)

lemma target_keywords_set:
  assumes "set_order iter"
  shows "set (target_keywords iter ws) =
           set (known_skills ws) \<union>
           (if card (set (known_skills ws)) < 5 then set (map fst (most_common 10 (jd_counter ws))) else {})"
  by (simp add: target_keywords_def set_orderD(1) [OF assms])

lemma target_keywords_tokens:
  assumes "set_order iter"
  shows "set (target_keywords iter ws) \<subseteq> set ws"
  using most_common_words [of 10 ws]
  by (auto simp: target_keywords_set [OF assms] known_skills_def simp del: set_map split: if_splits)

lemma length_TECH_SKILLS: "length TECH_SKILLS = 43"
  by (simp add: TECH_SKILLS_def)

lemma known_skills_card: "card (set (known_skills ws)) \<le> 43"
proof -
  have "set (known_skills ws) \<subseteq> set TECH_SKILLS"
    by (auto simp: known_skills_def)
  then have "card (set (known_skills ws)) \<le> card (set TECH_SKILLS)"
    by (simp add: card_mono)
  also have "\<dots> \<le> length TECH_SKILLS"
    by (rule card_length)
  finally show ?thesis by (simp add: length_TECH_SKILLS)
qed

lemma target_keywords_length:
  assumes "set_order iter"
  shows "length (target_keywords iter ws) \<le> 43"
proof -
  have len: "length (iter xs) = card (set xs)" for xs
    using distinct_card [OF set_orderD(2) [OF assms], of xs] set_orderD(1) [OF assms, of xs] by simp
  show ?thesis
  proof (cases "card (set (known_skills ws)) < 5")
    case True
    let ?mc = "map fst (most_common 10 (jd_counter ws))"
    have "card (set (known_skills ws @ ?mc)) \<le> card (set (known_skills ws)) + card (set ?mc)"
      by (simp add: card_Un_le del: set_map)
    also have "card (set ?mc) \<le> length ?mc"
      by (rule card_length)
    also have "length ?mc \<le> 10"
      by (simp add: most_common_length)
    finally have "card (set (known_skills ws @ ?mc)) \<le> 43"
      using True by simp
    with True show ?thesis by (simp add: target_keywords_def len del: set_append set_map)
  next
    case False
    then show ?thesis by (simp add: target_keywords_def len known_skills_card)
  qed
qed



section \<open>Tokens are their own lowercase\<close>

lemma lower_char_token: "is_lower_az c \<or> is_digit c \<Longrightarrow> lower_char c = c"
  by (auto simp: char_eval)

lemma str_lower_token: "\<forall>c\<in>set k. is_lower_az c \<or> is_digit c \<Longrightarrow> str_lower k = k"
  by (induction k) (simp_all add: str_lower_def lower_char_token)

lemma occurs_in_lower:
  assumes "occurs_in k t" and "\<forall>c\<in>set k. is_lower_az c \<or> is_digit c"
  shows "occurs_in k (str_lower t)"
proof -
  from assms(1) obtain pre post where "t = pre @ k @ post"
    by (auto simp: occurs_in_def)
  then have "str_lower t = str_lower pre @ str_lower k @ str_lower post"
    by (simp add: str_lower_def)
  with str_lower_token [OF assms(2)] show ?thesis
    unfolding occurs_in_def by metis
qed



section \<open>The score\<close>

text \<open>The floating-point expression is not the integer quotient everywhere: with 29
  keywords found out of 50 it gives 57. The target list never has more than 43 entries,
  and up to there the two agree: every pair is computed.\<close>

lemma score_of_29_50: "score_of 29 50 = 57 \<and> int (100 * 29 div 50) = 58"
  by (simp add: score_eval)

lemma all_upto_iff: "all_upto P n \<longleftrightarrow> (\<forall>k\<le>n. P k)"
  by (induction n) (auto simp: le_Suc_eq)

lemma all_upto_numeral:
  "all_upto P (numeral k) = (P (numeral k) \<and> all_upto P (pred_numeral k))"
  by (simp add: numeral_eq_Suc)

lemmas rows_eval = all_upto_numeral rows_exact_def score_exact_def score_eval

lemma rows_0_21: "all_upto rows_exact 21"
  by (simp add: rows_eval)

lemma rows_22_30:
  "rows_exact 22 \<and> rows_exact 23 \<and> rows_exact 24 \<and> rows_exact 25 \<and> rows_exact 26
   \<and> rows_exact 27 \<and> rows_exact 28 \<and> rows_exact 29 \<and> rows_exact 30"
  by (simp add: rows_eval)

lemma rows_31_37:
  "rows_exact 31 \<and> rows_exact 32 \<and> rows_exact 33 \<and> rows_exact 34 \<and> rows_exact 35
   \<and> rows_exact 36 \<and> rows_exact 37"
  by (simp add: rows_eval)

lemma rows_38_43:
  "rows_exact 38 \<and> rows_exact 39 \<and> rows_exact 40 \<and> rows_exact 41 \<and> rows_exact 42
   \<and> rows_exact 43"
  by (simp add: rows_eval)

lemma rows_0_43: "all_upto rows_exact 43"
  using rows_0_21 rows_22_30 rows_31_37 rows_38_43
  by (simp add: all_upto_numeral)

lemma score_of_exact:
  assumes "t \<le> 43" and "f \<le> t"
  shows "score_of f t = int (100 * f div t)"
  using rows_0_43 assms by (simp add: all_upto_iff rows_exact_def score_exact_def)

lemma float_div_same: "0 < t \<Longrightarrow> float_div t t = (2 ^ 52, - 52)"
proof -
  assume t: "0 < t"
  have "t * 2 ^ 53 = (2 * t) * 2 ^ 52" by simp
  then have "(t * 2 ^ 53) div (2 * t) = 2 ^ 52" "(t * 2 ^ 53) mod (2 * t) = 0"
    using t by (simp_all del: mult_2 power_numeral)
  with t show ?thesis
    by (simp add: float_div_def round53_def round_half_even_def Let_def del: power_numeral)
qed

lemma score_of_all: "0 < t \<Longrightarrow> score_of t t = 100"
  by (simp add: score_of_def float_div_same)
    (simp add: float_mul_def float_to_int_def round53_def round_half_even_def Let_def bit_length_num)


lemma analyze_total:
  assumes "resume_text \<noteq> []" and "jd_text \<noteq> []"
  shows "\<exists>r. analyze iter resume_text jd_text = Inr r"
  using assms by (simp add: analyze_def Let_def split: prod.split)


text \<open>
  C1. The score of a response is \<open>100 * |found| div |targets|\<close>, the quotient of natural
  numbers, that is, truncated toward zero; it is 0 when there is no target keyword.
\<close>

theorem score_formula:
  assumes "set_order iter" and "analyze iter resume_text jd_text = Inr r"
  shows "score r =
           (if target_keywords iter (clean_text jd_text) = [] then 0
            else int (100 * length (found_keywords r) div length (target_keywords iter (clean_text jd_text))))"
proof -
  let ?targets = "target_keywords iter (clean_text jd_text)"
  have "length (found_keywords r) \<le> length ?targets"
    by (simp add: analyze_Inr(3) [OF assms(2)])
  with target_keywords_length [OF assms(1)]
  have "score_of (length (found_keywords r)) (length ?targets)
          = int (100 * length (found_keywords r) div length ?targets)"
    by (rule score_of_exact)
  then show ?thesis
    by (simp add: analyze_Inr(5) [OF assms(2)])
qed

theorem score_formula_witness:
  "set_order remdups \<and> analyze remdups example_resume example_jd = Inr example_response
   \<and> length (found_keywords example_response) = 3
   \<and> length (target_keywords remdups (clean_text example_jd)) = 9
   \<and> score example_response = int (100 * 3 div 9)"
proof -
  have lens: "length (found_keywords example_response) = 3"
    "length (target_keywords remdups (clean_text example_jd)) = 9"
    by (simp_all add: example_response_def example_target_keywords example_targets_def)
  then have "target_keywords remdups (clean_text example_jd) \<noteq> []"
    by auto
  with score_formula [OF set_order_remdups example_analysis] lens
  have "score example_response = int (100 * 3 div 9)"
    by simp
  with lens set_order_remdups example_analysis show ?thesis
    by simp
qed

section \<open>A resume that has every keyword\<close>

lemma no_targets: "target_keywords remdups (clean_text ''!!'') = []"
  by code_simp

lemma no_targets_score: "map_sum id score (analyze remdups ''x'' ''!!'') = Inr 0"
  unfolding analyze_def Let_def no_targets by (simp add: score_of_def)


text \<open>C6 as stated fails when the job description yields no target keyword: every
  target keyword is then in the resume, and the score is 0.\<close>

theorem full_match_counterexample:
  "set_order remdups \<and> target_keywords remdups (clean_text ''!!'') = []
   \<and> map_sum id score (analyze remdups ''x'' ''!!'') = Inr 0"
  using set_order_remdups no_targets no_targets_score by simp


text \<open>
  C6, amended. When there is at least one target keyword and every target keyword occurs
  literally in the raw resume text, the score is 100.
\<close>

theorem full_match_score:
  assumes "set_order iter" and "analyze iter resume_text jd_text = Inr r"
    and "target_keywords iter (clean_text jd_text) \<noteq> []"
    and "\<forall>k\<in>set (target_keywords iter (clean_text jd_text)). occurs_in k resume_text"
  shows "score r = 100"
proof -
  let ?targets = "target_keywords iter (clean_text jd_text)"
  have "k \<in> set ?targets \<Longrightarrow> str_contains k (str_lower resume_text)" for k
  proof -
    assume k: "k \<in> set ?targets"
    with target_keywords_tokens [OF assms(1)] have "k \<in> set (clean_text jd_text)"
      by blast
    then have "\<forall>c\<in>set k. is_lower_az c \<or> is_digit c"
      using clean_text_chars by blast
    with assms(4) k show ?thesis
      by (simp add: str_contains_iff occurs_in_lower)
  qed
  then have "found_keywords r = ?targets"
    by (simp add: analyze_Inr(3) [OF assms(2)])
  with assms(3) show ?thesis
    by (simp add: analyze_Inr(5) [OF assms(2)] score_of_all)
qed

lemma full_targets:
  "target_keywords remdups (clean_text full_jd) = [''python'', ''react'', ''docker'', ''aws'', ''sql'']"
  by code_simp

lemma full_occurs:
  "list_all (\<lambda>k. occurs_in k full_resume) [''python'', ''react'', ''docker'', ''aws'', ''sql'']"
proof -
  have "list_all (\<lambda>k. str_contains k full_resume) [''python'', ''react'', ''docker'', ''aws'', ''sql'']"
    by code_simp
  then show ?thesis by (simp add: str_contains_iff)
qed

theorem full_match_score_witness:
  "set_order remdups
   \<and> target_keywords remdups (clean_text full_jd) = [''python'', ''react'', ''docker'', ''aws'', ''sql'']
   \<and> list_all (\<lambda>k. occurs_in k full_resume) [''python'', ''react'', ''docker'', ''aws'', ''sql'']
   \<and> map_sum id score (analyze remdups full_resume full_jd) = Inr 100"
proof -
  have "full_resume \<noteq> []" "full_jd \<noteq> []"
    by (simp_all add: full_resume_def full_jd_def)
  then obtain r where r: "analyze remdups full_resume full_jd = Inr r"
    using analyze_total by blast
  have "score r = 100"
    using full_match_score [OF set_order_remdups r] full_occurs
    by (simp add: full_targets list_all_iff)
  with r set_order_remdups full_targets full_occurs show ?thesis
    by simp
qed

section \<open>Target keywords are tokens\<close>

lemma untokenizable:
  "list_all (\<lambda>s. \<not> (2 < length s \<and> list_all (\<lambda>c. is_lower_az c \<or> is_digit c) s)) untokenizable_skills"
  by code_simp


text \<open>
  C10. Every target keyword is one of the job description's tokens: longer than two
  characters, made of the letters a to z and the digits. So the entries of \<open>TECH_SKILLS\<close>
  with a space or punctuation in them, or of two characters (machine learning, data
  analysis, design patterns, ci/cd, c++, c#, go), are never target keywords.
\<close>

theorem targets_are_tokens:
  assumes "set_order iter"
  shows "(\<forall>k\<in>set (target_keywords iter (clean_text jd_text)).
            k \<in> set (clean_text jd_text) \<and> 2 < length k \<and> (\<forall>c\<in>set k. is_lower_az c \<or> is_digit c))
       \<and> set (target_keywords iter (clean_text jd_text)) \<inter> set untokenizable_skills = {}"
proof -
  have tokens: "k \<in> set (clean_text jd_text) \<and> 2 < length k \<and> (\<forall>c\<in>set k. is_lower_az c \<or> is_digit c)"
    if "k \<in> set (target_keywords iter (clean_text jd_text))" for k
  proof -
    from that target_keywords_tokens [OF assms] have "k \<in> set (clean_text jd_text)"
      by blast
    then show ?thesis
      using clean_text_chars clean_text_length by blast
  qed
  moreover have "k \<notin> set untokenizable_skills"
    if "k \<in> set (target_keywords iter (clean_text jd_text))" for k
    using tokens [OF that] untokenizable by (auto simp: list_all_iff)
  ultimately show ?thesis by blast
qed

theorem targets_are_tokens_witness:
  "set_order remdups
   \<and> ''python'' \<in> set (target_keywords remdups (clean_text example_jd))
   \<and> ''python'' \<in> set (clean_text example_jd) \<and> 2 < length ''python''
   \<and> list_all (\<lambda>c. is_lower_az c \<or> is_digit c) ''python''
   \<and> ''go'' \<in> set TECH_SKILLS
   \<and> ''go'' \<notin> set (target_keywords remdups (clean_text ''Go, C++ and CI/CD''))"
proof -
  have python: "''python'' \<in> set (target_keywords remdups (clean_text example_jd))"
    by (simp add: example_target_keywords example_targets_def)
  have go: "''go'' \<in> set TECH_SKILLS" "''go'' \<in> set untokenizable_skills"
    by (simp_all add: TECH_SKILLS_def untokenizable_skills_def)
  from targets_are_tokens [OF set_order_remdups, of example_jd] python
  have "''python'' \<in> set (clean_text example_jd) \<and> 2 < length ''python''
        \<and> (\<forall>c\<in>set ''python''. is_lower_az c \<or> is_digit c)"
    by blast
  moreover from targets_are_tokens [OF set_order_remdups, of "''Go, C++ and CI/CD''"] go(2)
  have "''go'' \<notin> set (target_keywords remdups (clean_text ''Go, C++ and CI/CD''))"
    by blast
  ultimately show ?thesis
    using set_order_remdups python go(1) by (simp add: list_all_iff)
qed

section \<open>The ten most frequent words\<close>

subsection \<open>Lists: what comes before an element\<close>

lemma in_take_iff:
  "x \<in> set (take n xs) \<longleftrightarrow> x \<in> set xs \<and> length (takeWhile (\<lambda>z. z \<noteq> x) xs) < n"
proof (induction xs arbitrary: n)
  case Nil
  show ?case by simp
next
  case (Cons a xs)
  show ?case
  proof (cases n)
    case 0
    then show ?thesis by simp
  next
    case (Suc m)
    with Cons [of m] show ?thesis by auto
  qed
qed

lemma takeWhile_filter_commute:
  "P x \<Longrightarrow> takeWhile (\<lambda>z. z \<noteq> x) (filter P xs) = filter P (takeWhile (\<lambda>z. z \<noteq> x) xs)"
proof (induction xs)
  case Nil
  show ?case by simp
next
  case (Cons a xs)
  then show ?case by (cases "a = x") simp_all
qed

lemma before_or_after:
  "x \<in> set xs \<Longrightarrow> y \<in> set xs \<Longrightarrow> x \<noteq> y \<Longrightarrow>
     y \<in> set (takeWhile (\<lambda>z. z \<noteq> x) xs) \<or> x \<in> set (takeWhile (\<lambda>z. z \<noteq> y) xs)"
proof (induction xs)
  case Nil
  then show ?case by simp
next
  case (Cons a xs)
  show ?case
  proof (cases "a = x")
    case True
    show ?thesis unfolding True using Cons.prems(3) by simp
  next
    case False
    show ?thesis
    proof (cases "a = y")
      case True
      show ?thesis unfolding True using Cons.prems(3) by simp
    next
      case ne: False
      with False Cons show ?thesis by simp
    qed
  qed
qed

lemma sorted_before:
  "sorted (map f xs) \<Longrightarrow> x \<in> set xs \<Longrightarrow> y \<in> set (takeWhile (\<lambda>z. z \<noteq> x) xs) \<Longrightarrow> f y \<le> f x"
proof (induction xs)
  case Nil
  then show ?case by simp
next
  case (Cons a xs)
  show ?case
  proof (cases "a = x")
    case True
    with Cons.prems show ?thesis by simp
  next
    case False
    with Cons.prems have x: "x \<in> set xs" and y: "y = a \<or> y \<in> set (takeWhile (\<lambda>z. z \<noteq> x) xs)"
      and sorted: "sorted (map f xs)" and least: "\<forall>z\<in>set xs. f a \<le> f z"
      by auto
    from y show ?thesis
    proof
      assume "y = a"
      with least x show ?thesis by simp
    next
      assume "y \<in> set (takeWhile (\<lambda>z. z \<noteq> x) xs)"
      with Cons.IH sorted x show ?thesis by simp
    qed
  qed
qed

subsection \<open>A stable sort, element by element\<close>

lemma stable_before:
  assumes "f y = f x"
  shows "y \<in> set (takeWhile (\<lambda>z. z \<noteq> x) (sort_key f xs)) \<longleftrightarrow> y \<in> set (takeWhile (\<lambda>z. z \<noteq> x) xs)"
proof -
  let ?P = "\<lambda>z. f z = f x"
  have "y \<in> set (takeWhile (\<lambda>z. z \<noteq> x) (sort_key f xs))
          \<longleftrightarrow> y \<in> set (filter ?P (takeWhile (\<lambda>z. z \<noteq> x) (sort_key f xs)))"
    using assms by simp
  also have "filter ?P (takeWhile (\<lambda>z. z \<noteq> x) (sort_key f xs))
               = takeWhile (\<lambda>z. z \<noteq> x) (filter ?P (sort_key f xs))"
    by (simp add: takeWhile_filter_commute)
  also have "filter ?P (sort_key f xs) = filter ?P xs"
    by (rule sort_key_stable)
  also have "takeWhile (\<lambda>z. z \<noteq> x) (filter ?P xs) = filter ?P (takeWhile (\<lambda>z. z \<noteq> x) xs)"
    by (simp add: takeWhile_filter_commute)
  also have "y \<in> set (filter ?P (takeWhile (\<lambda>z. z \<noteq> x) xs)) \<longleftrightarrow> y \<in> set (takeWhile (\<lambda>z. z \<noteq> x) xs)"
    using assms by simp
  finally show ?thesis .
qed

lemma sort_key_before:
  assumes "x \<in> set xs"
  shows "set (takeWhile (\<lambda>z. z \<noteq> x) (sort_key f xs))
           = {y \<in> set xs. f y < f x \<or> (f y = f x \<and> y \<in> set (takeWhile (\<lambda>z. z \<noteq> x) xs))}"
    (is "?L = ?R")
proof (intro set_eqI iffI)
  fix y
  assume y: "y \<in> ?L"
  then have "y \<in> set xs"
    using set_takeWhileD [of y "\<lambda>z. z \<noteq> x" "sort_key f xs"] by simp
  moreover have "f y \<le> f x"
    using sorted_before [of f "sort_key f xs" x y] assms y by simp
  moreover have "y \<in> set (takeWhile (\<lambda>z. z \<noteq> x) xs)" if "f y = f x"
    using stable_before [of f y x xs] that y by simp
  ultimately show "y \<in> ?R" by auto
next
  fix y
  assume "y \<in> ?R"
  then have y: "y \<in> set xs" and cases: "f y < f x \<or> (f y = f x \<and> y \<in> set (takeWhile (\<lambda>z. z \<noteq> x) xs))"
    by auto
  from cases show "y \<in> ?L"
  proof
    assume less: "f y < f x"
    then have "x \<noteq> y" by auto
    with before_or_after [of x "sort_key f xs" y] assms y
    have "y \<in> ?L \<or> x \<in> set (takeWhile (\<lambda>z. z \<noteq> y) (sort_key f xs))"
      by simp
    moreover have "f x \<le> f y" if "x \<in> set (takeWhile (\<lambda>z. z \<noteq> y) (sort_key f xs))"
      using sorted_before [of f "sort_key f xs" y x] y that by simp
    ultimately show ?thesis using less by auto
  next
    assume "f y = f x \<and> y \<in> set (takeWhile (\<lambda>z. z \<noteq> x) xs)"
    then show ?thesis using stable_before [of f y x xs] by simp
  qed
qed

lemma take_sort_key:
  assumes "distinct xs"
  shows "set (take n (sort_key f xs))
           = {x \<in> set xs. card {y \<in> set xs. f y < f x \<or> (f y = f x \<and> y \<in> set (takeWhile (\<lambda>z. z \<noteq> x) xs))} < n}"
proof -
  have "length (takeWhile (\<lambda>z. z \<noteq> x) (sort_key f xs))
          = card {y \<in> set xs. f y < f x \<or> (f y = f x \<and> y \<in> set (takeWhile (\<lambda>z. z \<noteq> x) xs))}"
    if "x \<in> set xs" for x
  proof -
    have "distinct (takeWhile (\<lambda>z. z \<noteq> x) (sort_key f xs))"
      using assms by simp
    then have "length (takeWhile (\<lambda>z. z \<noteq> x) (sort_key f xs))
                 = card (set (takeWhile (\<lambda>z. z \<noteq> x) (sort_key f xs)))"
      by (simp add: distinct_card)
    then show ?thesis by (simp only: sort_key_before [OF that])
  qed
  then show ?thesis
    by (auto simp: in_take_iff)
qed

subsection \<open>The counter: keys in first-seen order, values the counts\<close>

lemma Counter_keys_before:
  "set (takeWhile (\<lambda>z. z \<noteq> x) (map fst (Counter ws))) = set (takeWhile (\<lambda>z. z \<noteq> x) ws)"
proof (induction ws rule: rev_induct)
  case Nil
  show ?case by (simp add: Counter_Nil)
next
  case (snoc w ws)
  let ?K = "map fst (Counter ws)"
  have keys: "set ?K = set ws"
    using Counter_keys_set [of ws] by simp
  have K': "map fst (Counter (ws @ [w])) = (if w \<in> set ws then ?K else ?K @ [w])"
    using Counter_keys_set [of ws] by (simp add: Counter_snoc counter_add_keys)
  show ?case
  proof (cases "x \<in> set ws")
    case True
    then have "takeWhile (\<lambda>z. z \<noteq> x) (ws @ [w]) = takeWhile (\<lambda>z. z \<noteq> x) ws"
      by (intro takeWhile_append1 [of x]) auto
    moreover from True keys have "takeWhile (\<lambda>z. z \<noteq> x) (?K @ [w]) = takeWhile (\<lambda>z. z \<noteq> x) ?K"
      by (intro takeWhile_append1 [of x]) auto
    ultimately show ?thesis
      using snoc K' by (cases "w \<in> set ws") simp_all
  next
    case False
    then have "takeWhile (\<lambda>z. z \<noteq> x) (ws @ [w]) = ws @ takeWhile (\<lambda>z. z \<noteq> x) [w]"
      by (intro takeWhile_append2) auto
    moreover from False keys have "takeWhile (\<lambda>z. z \<noteq> x) (?K @ [w]) = ?K @ takeWhile (\<lambda>z. z \<noteq> x) [w]"
      by (intro takeWhile_append2) auto
    moreover from False keys have "takeWhile (\<lambda>z. z \<noteq> x) ?K = ?K"
      by (intro takeWhile_eq_all_conv [THEN iffD2]) auto
    moreover have "w \<in> set ws \<Longrightarrow> set (takeWhile (\<lambda>z. z \<noteq> x) [w]) \<subseteq> set ws"
      by (cases "w = x") simp_all
    ultimately have rhs: "set (takeWhile (\<lambda>z. z \<noteq> x) (ws @ [w])) = set ws \<union> set (takeWhile (\<lambda>z. z \<noteq> x) [w])"
      and new: "set (takeWhile (\<lambda>z. z \<noteq> x) (?K @ [w])) = set ws \<union> set (takeWhile (\<lambda>z. z \<noteq> x) [w])"
      and old: "set (takeWhile (\<lambda>z. z \<noteq> x) ?K) = set ws"
      and sub: "w \<in> set ws \<Longrightarrow> set ws \<union> set (takeWhile (\<lambda>z. z \<noteq> x) [w]) = set ws"
      using keys by (simp_all only: set_append Un_absorb2)
    show ?thesis
    proof (cases "w \<in> set ws")
      case True
      with K' have eq: "map fst (Counter (ws @ [w])) = ?K" by simp
      show ?thesis by (simp only: eq old rhs sub [OF True])
    next
      case False
      with K' have eq: "map fst (Counter (ws @ [w])) = ?K @ [w]" by simp
      show ?thesis by (simp only: eq new rhs)
    qed
  qed
qed

lemma counter_add_map_of:
  "map_of (counter_add w c) = (map_of c)(w \<mapsto> (case map_of c w of None \<Rightarrow> 1 | Some n \<Rightarrow> Suc n))"
  by (induction c) (auto simp: fun_upd_twist)

lemma Counter_map_of:
  "map_of (Counter ws) w = (if w \<in> set ws then Some (count_list ws w) else None)"
proof (induction ws rule: rev_induct)
  case Nil
  show ?case by (simp add: Counter_Nil)
next
  case (snoc v ws)
  show ?case
  proof (cases "w = v")
    case True
    with snoc show ?thesis
      by (cases "v \<in> set ws") (simp_all add: Counter_snoc counter_add_map_of)
  next
    case False
    with snoc show ?thesis
      by (simp add: Counter_snoc counter_add_map_of)
  qed
qed

lemma Counter_values: "(w, k) \<in> set (Counter ws) \<Longrightarrow> k = count_list ws w"
  using Counter_map_of [of ws w] Counter_keys_distinct [of ws]
  by (auto split: if_splits)

subsection \<open>Sorting the counter is sorting its keys\<close>

lemma insort_key_fst:
  assumes "f p = g (fst p)" and "\<forall>q\<in>set ps. f q = g (fst q)"
  shows "map fst (insort_key f p ps) = insort_key g (fst p) (map fst ps)"
  using assms by (induction ps) auto

lemma sort_key_fst:
  assumes "\<forall>q\<in>set ps. f q = g (fst q)"
  shows "map fst (sort_key f ps) = sort_key g (map fst ps)"
  using assms
proof (induction ps)
  case Nil
  show ?case by simp
next
  case (Cons p ps)
  then have "map fst (insort_key f p (sort_key f ps)) = insort_key g (fst p) (map fst (sort_key f ps))"
    by (intro insort_key_fst) auto
  with Cons show ?case by simp
qed

lemma most_common_keys:
  "map fst (most_common n (Counter ws))
     = take n (sort_key (\<lambda>w. - int (count_list ws w)) (map fst (Counter ws)))"
proof -
  have "\<forall>q\<in>set (Counter ws). (case q of (w, k) \<Rightarrow> - int k) = - int (count_list ws (fst q))"
    using Counter_values by auto
  then have "map fst (sort_key (\<lambda>(w, k). - int k) (Counter ws))
               = sort_key (\<lambda>w. - int (count_list ws w)) (map fst (Counter ws))"
    by (rule sort_key_fst)
  moreover have "map fst (most_common n (Counter ws))
                   = take n (map fst (sort_key (\<lambda>(w, k). - int k) (Counter ws)))"
    by (simp add: most_common_def take_map)
  ultimately show ?thesis by simp
qed

lemma most_common_most_frequent:
  "set (map fst (most_common n (Counter ws))) = most_frequent n ws"
proof -
  have keys: "set (map fst (Counter ws)) = set ws"
    using Counter_keys_set [of ws] by simp
  have "{y \<in> set ws. - int (count_list ws y) < - int (count_list ws x)
            \<or> (- int (count_list ws y) = - int (count_list ws x)
                \<and> y \<in> set (takeWhile (\<lambda>z. z \<noteq> x) (map fst (Counter ws))))}
          = {v \<in> set ws. ranks_above ws v x}" for x
    by (auto simp: ranks_above_def seen_before_def Counter_keys_before simp del: set_map)
  then show ?thesis
    unfolding most_common_keys take_sort_key [OF Counter_keys_distinct] keys most_frequent_def
    by simp
qed


subsection \<open>The selection\<close>

lemma known_skills_set: "set (known_skills ws) = {w \<in> set ws. w \<in> set TECH_SKILLS}"
  by (auto simp: known_skills_def)

lemma ranked_targets:
  "target_keywords remdups ranked_words =
     [''aaa'', ''kkk'', ''python'', ''bbb'', ''ccc'', ''ddd'', ''eee'', ''fff'', ''ggg'', ''hhh'']"
  by code_simp

lemma ranked_skills: "{w \<in> set ranked_words. w \<in> set TECH_SKILLS} = {''python''}"
proof -
  have "known_skills ranked_words = [''python'']"
    by code_simp
  then show ?thesis
    using known_skills_set [of ranked_words] by simp
qed

lemma full_words: "clean_text full_jd = [''python'', ''react'', ''docker'', ''aws'', ''and'', ''sql'']"
  by code_simp

lemma full_skills_card: "card {w \<in> set (clean_text full_jd). w \<in> set TECH_SKILLS} = 5"
proof -
  have "known_skills (clean_text full_jd) = [''python'', ''react'', ''docker'', ''aws'', ''sql'']"
    unfolding full_words by code_simp
  then have "{w \<in> set (clean_text full_jd). w \<in> set TECH_SKILLS}
               = set [''python'', ''react'', ''docker'', ''aws'', ''sql'']"
    using known_skills_set [of "clean_text full_jd"] by simp
  then show ?thesis by simp
qed


text \<open>
  C4. The target keywords are the tokens of the job description that are in \<open>TECH_SKILLS\<close>
  and, exactly when fewer than five distinct such tokens exist, also the ten most
  frequent tokens that are not stop words (all of them when there are fewer than ten),
  ties going to the word seen first. With five or more known skills nothing is added.
\<close>

theorem target_keywords_selection:
  assumes "set_order iter"
  shows "set (target_keywords iter jd_words) =
           {w \<in> set jd_words. w \<in> set TECH_SKILLS} \<union>
           (if card {w \<in> set jd_words. w \<in> set TECH_SKILLS} < 5
            then most_frequent 10 (filter (\<lambda>w. w \<notin> set COMMON_STOP_WORDS) jd_words) else {})"
  unfolding target_keywords_set [OF assms] known_skills_set jd_counter_def most_common_most_frequent
  by (rule refl)

theorem target_keywords_selection_witness:
  "set_order remdups
   \<and> card {w \<in> set ranked_words. w \<in> set TECH_SKILLS} = 1
   \<and> set (target_keywords remdups ranked_words)
       = {''python''} \<union> most_frequent 10 (filter (\<lambda>w. w \<notin> set COMMON_STOP_WORDS) ranked_words)
   \<and> ''kkk'' \<in> most_frequent 10 (filter (\<lambda>w. w \<notin> set COMMON_STOP_WORDS) ranked_words)
   \<and> ''iii'' \<notin> most_frequent 10 (filter (\<lambda>w. w \<notin> set COMMON_STOP_WORDS) ranked_words)
   \<and> card {w \<in> set (clean_text full_jd). w \<in> set TECH_SKILLS} = 5
   \<and> set (target_keywords remdups (clean_text full_jd))
       = {w \<in> set (clean_text full_jd). w \<in> set TECH_SKILLS}"
proof -
  let ?top = "most_frequent 10 (filter (\<lambda>w. w \<notin> set COMMON_STOP_WORDS) ranked_words)"
  from target_keywords_selection [OF set_order_remdups, of ranked_words]
  have sel: "set (target_keywords remdups ranked_words) = {''python''} \<union> ?top"
    by (simp add: ranked_skills)
  then have "''kkk'' \<in> {''python''} \<union> ?top" "''iii'' \<notin> {''python''} \<union> ?top"
    by (simp_all only: sel [symmetric] ranked_targets) simp_all
  then have "''kkk'' \<in> ?top" "''iii'' \<notin> ?top"
    by simp_all
  moreover from target_keywords_selection [OF set_order_remdups, of "clean_text full_jd"]
  have "set (target_keywords remdups (clean_text full_jd))
          = {w \<in> set (clean_text full_jd). w \<in> set TECH_SKILLS}"
    by (simp add: full_skills_card)
  ultimately show ?thesis
    using set_order_remdups sel ranked_skills full_skills_card by simp
qed

section \<open>The email check\<close>

subsection \<open>Places\<close>

lemma after_Nil: "after b [] = b"
  by (simp add: after_def)

lemma after_Cons: "after b (c # m) = after (is_word c) m"
  by (simp add: after_def)

lemma after_append: "after b (m @ m') = after (after b m) m'"
  by (simp add: after_def)

subsection \<open>Runs of a class\<close>

lemma run_places:
  "run ic as (b, cs) =
     map (\<lambda>n. (after b (take n cs), drop n cs)) [0..<Suc (length (takeWhile (class_matches ic as) cs))]"
proof (induction cs arbitrary: b)
  case Nil
  show ?case by (simp add: after_Nil)
next
  case (Cons c cs)
  show ?case
  proof (cases "class_matches ic as c")
    case True
    let ?L = "length (takeWhile (class_matches ic as) cs)"
    have "[0..<Suc (Suc ?L)] = 0 # map Suc [0..<Suc ?L]"
      by (simp add: upt_conv_Cons map_Suc_upt del: upt_Suc)
    then show ?thesis
      using True Cons [of "is_word c"] by (simp add: after_Nil after_Cons o_def del: upt_Suc)
  next
    case False
    then show ?thesis by (simp add: after_Nil)
  qed
qed

lemma in_drop_take_upt:
  "p \<in> set (drop lo (take k (map f [0..<N]))) \<longleftrightarrow> (\<exists>n. lo \<le> n \<and> n < k \<and> n < N \<and> p = f n)"
proof -
  have "take k [0..<N] = [0..<min k N]"
    by (cases "k \<le> N") (simp_all add: min_def)
  then have "drop lo (take k (map f [0..<N])) = map f [lo..<min k N]"
    by (simp add: take_map drop_map)
  then show ?thesis by auto
qed

lemma in_drop_upt:
  "p \<in> set (drop lo (map f [0..<N])) \<longleftrightarrow> (\<exists>n. lo \<le> n \<and> n < N \<and> p = f n)"
proof -
  have "drop lo (map f [0..<N]) = map f [lo..<N]"
    by (simp add: drop_map)
  then show ?thesis by auto
qed

lemma less_takeWhile:
  "n < Suc (length (takeWhile P cs)) \<longleftrightarrow> n \<le> length cs \<and> list_all P (take n cs)"
proof (induction cs arbitrary: n)
  case Nil
  show ?case by simp
next
  case (Cons c cs)
  show ?case
  proof (cases n)
    case 0
    then show ?thesis by simp
  next
    case (Suc m)
    with Cons [of m] show ?thesis by (cases "P c") simp_all
  qed
qed

lemma ends_Rep:
  "p \<in> set (ends ic (Rep lo hi as) (b, cs)) \<longleftrightarrow>
     (\<exists>m rest. cs = m @ rest \<and> list_all (class_matches ic as) m \<and> within lo hi (length m)
        \<and> p = (after b m, rest))"
  (is "?L \<longleftrightarrow> ?R")
proof -
  let ?P = "class_matches ic as"
  have "?L \<longleftrightarrow> (\<exists>n. within lo hi n \<and> n \<le> length cs \<and> list_all ?P (take n cs)
                   \<and> p = (after b (take n cs), drop n cs))"
  proof (cases hi)
    case None
    then show ?thesis
      by (simp only: ends.simps option.case run_places in_drop_upt less_takeWhile within_def)
        auto
  next
    case (Some h)
    then show ?thesis
      by (simp only: ends.simps option.case run_places in_drop_take_upt less_takeWhile within_def)
        (auto simp: less_Suc_eq_le)
  qed
  also have "\<dots> \<longleftrightarrow> ?R"
  proof
    assume "\<exists>n. within lo hi n \<and> n \<le> length cs \<and> list_all ?P (take n cs)
                \<and> p = (after b (take n cs), drop n cs)"
    then obtain n where n: "within lo hi n" "n \<le> length cs" "list_all ?P (take n cs)"
      "p = (after b (take n cs), drop n cs)"
      by blast
    have "cs = take n cs @ drop n cs" by simp
    moreover from n(2) have "length (take n cs) = n" by simp
    ultimately show ?R using n by metis
  next
    assume ?R
    then obtain m rest where m: "cs = m @ rest" "list_all ?P m" "within lo hi (length m)"
      "p = (after b m, rest)"
      by blast
    then have "take (length m) cs = m" "drop (length m) cs = rest" "length m \<le> length cs"
      by simp_all
    with m show "\<exists>n. within lo hi n \<and> n \<le> length cs \<and> list_all ?P (take n cs)
                \<and> p = (after b (take n cs), drop n cs)"
      by metis
  qed
  finally show ?thesis .
qed

subsection \<open>Patterns in sequence\<close>

lemma then_Bound:
  "ends ic (Then Bound r) p \<noteq> [] \<longleftrightarrow> at_boundary p \<and> ends ic r p \<noteq> []"
  by simp

lemma only_Bound: "ends ic Bound p \<noteq> [] \<longleftrightarrow> at_boundary p"
  by simp

lemma then_One:
  "ends ic (Then (One as) r) (b, cs) \<noteq> [] \<longleftrightarrow>
     (\<exists>c rest. cs = c # rest \<and> class_matches ic as c \<and> ends ic r (is_word c, rest) \<noteq> [])"
  by (cases cs) simp_all

lemma then_Rep:
  "ends ic (Then (Rep lo hi as) r) (b, cs) \<noteq> [] \<longleftrightarrow>
     (\<exists>m rest. cs = m @ rest \<and> list_all (class_matches ic as) m \<and> within lo hi (length m)
        \<and> ends ic r (after b m, rest) \<noteq> [])"
proof -
  have "ends ic (Then (Rep lo hi as) r) (b, cs) \<noteq> [] \<longleftrightarrow>
          (\<exists>p. p \<in> set (ends ic (Rep lo hi as) (b, cs)) \<and> ends ic r p \<noteq> [])"
    by (auto simp del: ends.simps(6) simp: ends.simps(4))
  then show ?thesis
    unfolding ends_Rep by blast
qed

lemma search_from_iff:
  "search_from ic r (b, cs) \<longleftrightarrow>
     (\<exists>skip rest. cs = skip @ rest \<and> ends ic r (after b skip, rest) \<noteq> [])"
proof (induction cs arbitrary: b)
  case Nil
  show ?case by (simp add: after_Nil)
next
  case (Cons c cs)
  have "(\<exists>skip rest. c # cs = skip @ rest \<and> ends ic r (after b skip, rest) \<noteq> [])
          \<longleftrightarrow> ends ic r (b, c # cs) \<noteq> []
              \<or> (\<exists>skip rest. cs = skip @ rest \<and> ends ic r (after (is_word c) skip, rest) \<noteq> [])"
    (is "?A \<longleftrightarrow> ?B \<or> ?C")
  proof
    assume ?A
    then obtain skip rest where s: "c # cs = skip @ rest" "ends ic r (after b skip, rest) \<noteq> []"
      by blast
    show "?B \<or> ?C"
    proof (cases skip)
      case Nil
      with s show ?thesis by (simp add: after_Nil)
    next
      case (Cons d skip')
      with s have "cs = skip' @ rest" "ends ic r (after (is_word c) skip', rest) \<noteq> []"
        by (simp_all add: after_Cons)
      then show ?thesis by blast
    qed
  next
    assume "?B \<or> ?C"
    then show ?A
    proof
      assume ?B
      then have "c # cs = [] @ (c # cs) \<and> ends ic r (after b [], c # cs) \<noteq> []"
        by (simp add: after_Nil)
      then show ?A by blast
    next
      assume ?C
      then obtain skip rest where "cs = skip @ rest" "ends ic r (after (is_word c) skip, rest) \<noteq> []"
        by blast
      then have "c # cs = (c # skip) @ rest \<and> ends ic r (after b (c # skip), rest) \<noteq> []"
        by (simp add: after_Cons)
      then show ?A by blast
    qed
  qed
  with Cons [of "is_word c"] show ?case by simp
qed


subsection \<open>The email pattern\<close>

lemma email_class: "class_matches False [Word, Chr CHR ''.'', Chr CHR ''-''] c \<longleftrightarrow> email_char c"
  by (simp add: class_matches_def email_char_def)

lemma word_class: "class_matches False [Word] c \<longleftrightarrow> is_word c"
  by (simp add: class_matches_def)

lemma chr_class: "class_matches False [Chr x] c \<longleftrightarrow> c = x"
  by (simp add: class_matches_def)

lemma not_word_dot: "\<not> is_word CHR ''.''"
  by (simp add: is_word_def char_eval)

lemma email_re_unfold:
  "email_re =
     Then Bound (Then (Rep 1 None [Word, Chr CHR ''.'', Chr CHR ''-'']) (Then (One [Chr CHR ''@''])
       (Then (Rep 1 None [Word, Chr CHR ''.'', Chr CHR ''-'']) (Then (One [Chr CHR ''.''])
         (Then (Rep 2 (Some 4) [Word]) Bound)))))"
  by (simp add: email_re_def)

lemma email_ends:
  "ends False email_re (b, cs) \<noteq> [] \<longleftrightarrow>
     at_boundary (b, cs)
     \<and> (\<exists>loc host tld post. cs = loc @ ''@'' @ host @ ''.'' @ tld @ post
           \<and> email_shape loc host tld \<and> at_boundary (after False tld, post))"
  (is "?L \<longleftrightarrow> ?B \<and> ?R")
proof
  let ?tld = "Then (Rep 2 (Some 4) [Word]) Bound"
  let ?dot = "Then (One [Chr CHR ''.'']) ?tld"
  let ?host = "Then (Rep 1 None [Word, Chr CHR ''.'', Chr CHR ''-'']) ?dot"
  let ?at = "Then (One [Chr CHR ''@'']) ?host"
  let ?loc = "Then (Rep 1 None [Word, Chr CHR ''.'', Chr CHR ''-'']) ?at"
  assume ?L
  then have start: "at_boundary (b, cs)" and e1: "ends False ?loc (b, cs) \<noteq> []"
    unfolding email_re_unfold then_Bound by blast+
  from e1 obtain loc r1 where loc: "cs = loc @ r1" "list_all email_char loc" "within 1 None (length loc)"
    and e2: "ends False ?at (after b loc, r1) \<noteq> []"
    unfolding then_Rep email_class by blast
  from e2 obtain r2 where r1: "r1 = CHR ''@'' # r2" and e3: "ends False ?host (is_word CHR ''@'', r2) \<noteq> []"
    unfolding then_One chr_class by blast
  from e3 obtain host r3 where host: "r2 = host @ r3" "list_all email_char host" "within 1 None (length host)"
    and e4: "ends False ?dot (after (is_word CHR ''@'') host, r3) \<noteq> []"
    unfolding then_Rep email_class by blast
  from e4 obtain r4 where r3: "r3 = CHR ''.'' # r4" and e5: "ends False ?tld (is_word CHR ''.'', r4) \<noteq> []"
    unfolding then_One chr_class by blast
  from e5 obtain tld post where tld: "r4 = tld @ post" "list_all is_word tld" "within 2 (Some 4) (length tld)"
    and e6: "ends False Bound (after (is_word CHR ''.'') tld, post) \<noteq> []"
    unfolding then_Rep word_class by blast
  from e6 have stop: "at_boundary (after False tld, post)"
    by (simp only: only_Bound not_word_dot)
  have "cs = loc @ ''@'' @ host @ ''.'' @ tld @ post"
    using loc(1) r1 host(1) r3 tld(1) by simp
  moreover have "email_shape loc host tld"
    using loc(2,3) host(2,3) tld(2,3) by (auto simp: email_shape_def within_def)
  ultimately show "?B \<and> ?R"
    using start stop by blast
next
  let ?tld = "Then (Rep 2 (Some 4) [Word]) Bound"
  let ?dot = "Then (One [Chr CHR ''.'']) ?tld"
  let ?host = "Then (Rep 1 None [Word, Chr CHR ''.'', Chr CHR ''-'']) ?dot"
  let ?at = "Then (One [Chr CHR ''@'']) ?host"
  let ?loc = "Then (Rep 1 None [Word, Chr CHR ''.'', Chr CHR ''-'']) ?at"
  assume "?B \<and> ?R"
  then obtain loc host tld post where start: "at_boundary (b, cs)"
    and cs: "cs = loc @ ''@'' @ host @ ''.'' @ tld @ post"
    and shape: "email_shape loc host tld" and stop: "at_boundary (after False tld, post)"
    by blast
  from shape have lens: "within 1 None (length loc)" "within 1 None (length host)"
    "within 2 (Some 4) (length tld)"
    and classes: "list_all email_char loc" "list_all email_char host" "list_all is_word tld"
    by (auto simp: email_shape_def within_def Suc_le_eq)
  have e6: "ends False Bound (after (is_word CHR ''.'') tld, post) \<noteq> []"
    using stop by (simp only: only_Bound not_word_dot)
  have e5: "ends False ?tld (is_word CHR ''.'', tld @ post) \<noteq> []"
    unfolding then_Rep word_class using classes(3) lens(3) e6 by blast
  have e4: "ends False ?dot (b', ''.'' @ tld @ post) \<noteq> []" for b'
    unfolding then_One chr_class using e5 by simp
  have e3: "ends False ?host (b', host @ ''.'' @ tld @ post) \<noteq> []" for b'
    unfolding then_Rep email_class using classes(2) lens(2) e4 by blast
  have e2: "ends False ?at (b', ''@'' @ host @ ''.'' @ tld @ post) \<noteq> []" for b'
    unfolding then_One chr_class using e3 by simp
  have e1: "ends False ?loc (b, loc @ ''@'' @ host @ ''.'' @ tld @ post) \<noteq> []"
    unfolding then_Rep email_class using classes(1) lens(1) e2 by blast
  with start cs show ?L
    by (simp only: email_re_unfold then_Bound) simp
qed

lemma at_boundary_after: "at_boundary (after False pre, rest) \<longleftrightarrow> word_boundary pre rest"
  by (cases rest) (auto simp: after_def word_boundary_def)

lemma at_boundary_end:
  "tld \<noteq> [] \<Longrightarrow> at_boundary (after False tld, post) \<longleftrightarrow> word_boundary (pre @ tld) post"
  by (cases post) (auto simp: after_def word_boundary_def)

lemma claimed_abcde: "claimed_email ''a@b.abcde''"
proof -
  have "''a@b.abcde'' = [] @ ''a'' @ ''@'' @ ''b'' @ ''.'' @ ''abcd'' @ ''e''
        \<and> ''a'' \<noteq> [] \<and> list_all email_char ''a'' \<and> ''b'' \<noteq> [] \<and> list_all email_char ''b''
        \<and> 2 \<le> length ''abcd'' \<and> length ''abcd'' \<le> 4 \<and> list_all is_letter ''abcd''"
    by (simp add: email_char_def is_letter_def is_word_def char_eval)
  then show ?thesis
    unfolding claimed_email_def by blast
qed

lemma rejected_abcde: "\<not> has_email ''a@b.abcde''"
  by code_simp


text \<open>C7 as stated fails: in \<^verbatim>\<open>a@b.abcde\<close> the substring \<^verbatim>\<open>a@b.abcd\<close> has the claimed
  form, and the check does not pass, since the pattern ends with \<^verbatim>\<open>\b\<close>.\<close>

theorem has_email_counterexample:
  "claimed_email ''a@b.abcde'' \<and> \<not> has_email ''a@b.abcde''"
  using claimed_abcde rejected_abcde by simp


text \<open>
  C7, amended. The Contact Email check passes exactly when the text contains a local part
  of word characters, dots and hyphens, an at sign, a domain of word characters, dots
  and hyphens, a dot, and two to four word characters (letters, digits or the
  underscore), with a word boundary at the start of the local part and another at the
  end of the last part.
\<close>

theorem has_email_iff:
  "has_email text \<longleftrightarrow>
     (\<exists>pre loc host tld post. text = pre @ loc @ ''@'' @ host @ ''.'' @ tld @ post
        \<and> email_shape loc host tld
        \<and> word_boundary pre (loc @ ''@'' @ host @ ''.'' @ tld @ post)
        \<and> word_boundary (pre @ loc @ ''@'' @ host @ ''.'' @ tld) post)"
  (is "_ \<longleftrightarrow> ?R")
proof -
  have tld: "tld \<noteq> []" if "email_shape loc host tld" for loc host tld
    using that by (auto simp: email_shape_def)
  have "has_email text \<longleftrightarrow>
          (\<exists>pre rest. text = pre @ rest \<and> ends False email_re (after False pre, rest) \<noteq> [])"
    by (simp add: has_email_def re_search_def search_from_iff)
  also have "\<dots> \<longleftrightarrow> ?R"
  proof
    assume "\<exists>pre rest. text = pre @ rest \<and> ends False email_re (after False pre, rest) \<noteq> []"
    then obtain pre rest where t: "text = pre @ rest"
      and e: "ends False email_re (after False pre, rest) \<noteq> []"
      by blast
    from e obtain loc host tld post where r: "rest = loc @ ''@'' @ host @ ''.'' @ tld @ post"
      and s: "email_shape loc host tld" and b1: "at_boundary (after False pre, rest)"
      and b2: "at_boundary (after False tld, post)"
      unfolding email_ends by blast
    from b2 at_boundary_end [OF tld [OF s], of post "pre @ loc @ ''@'' @ host @ ''.''"]
    have "word_boundary ((pre @ loc @ ''@'' @ host @ ''.'') @ tld) post"
      by blast
    with t r s b1 show ?R
      unfolding at_boundary_after by (intro exI [of _ pre] exI [of _ loc] exI [of _ host] exI [of _ tld] exI [of _ post]) simp
  next
    assume ?R
    then obtain pre loc host tld post where t: "text = pre @ loc @ ''@'' @ host @ ''.'' @ tld @ post"
      and s: "email_shape loc host tld"
      and b1: "word_boundary pre (loc @ ''@'' @ host @ ''.'' @ tld @ post)"
      and b2: "word_boundary ((pre @ loc @ ''@'' @ host @ ''.'') @ tld) post"
      by auto
    from b2 at_boundary_end [OF tld [OF s], of post "pre @ loc @ ''@'' @ host @ ''.''"]
    have "at_boundary (after False tld, post)"
      by blast
    with s b1 have "ends False email_re (after False pre, loc @ ''@'' @ host @ ''.'' @ tld @ post) \<noteq> []"
      unfolding email_ends at_boundary_after by blast
    with t show "\<exists>pre rest. text = pre @ rest \<and> ends False email_re (after False pre, rest) \<noteq> []"
      by blast
  qed
  finally show ?thesis .
qed

theorem has_email_iff_witness:
  "has_email ''Mail jane@example.com now'' \<and> has_email ''a@b.12''"
proof -
  have "''Mail jane@example.com now'' = ''Mail '' @ ''jane'' @ ''@'' @ ''example'' @ ''.'' @ ''com'' @ '' now''
        \<and> email_shape ''jane'' ''example'' ''com''
        \<and> word_boundary ''Mail '' (''jane'' @ ''@'' @ ''example'' @ ''.'' @ ''com'' @ '' now'')
        \<and> word_boundary (''Mail '' @ ''jane'' @ ''@'' @ ''example'' @ ''.'' @ ''com'') '' now''"
    by (simp add: email_shape_def email_char_def word_boundary_def is_word_def char_eval)
  then have "has_email ''Mail jane@example.com now''"
    unfolding has_email_iff by blast
  moreover have "''a@b.12'' = [] @ ''a'' @ ''@'' @ ''b'' @ ''.'' @ ''12'' @ []
        \<and> email_shape ''a'' ''b'' ''12''
        \<and> word_boundary [] (''a'' @ ''@'' @ ''b'' @ ''.'' @ ''12'' @ [])
        \<and> word_boundary ([] @ ''a'' @ ''@'' @ ''b'' @ ''.'' @ ''12'') []"
    by (simp add: email_shape_def email_char_def word_boundary_def is_word_def char_eval)
  then have "has_email ''a@b.12''"
    unfolding has_email_iff by blast
  ultimately show ?thesis by simp
qed

end
